theory Spec2Isabelle
  imports Main
begin

text \<open>
  The crawler of DeepLink-AI: the content-type classifier and \<^verbatim>\<open>fetchPageLinks\<close> of the
  oracle service (\<^verbatim>\<open>services/gemini\<close>), and the crawl loop of \<^verbatim>\<open>App.tsx\<close>
  (\<^verbatim>\<open>startRecursiveCrawl\<close>, \<^verbatim>\<open>processQueue\<close>, \<^verbatim>\<open>finishCrawl\<close>, \<^verbatim>\<open>stopCrawl\<close>,
  \<^verbatim>\<open>updateNodeState\<close>). The oracle, \<^verbatim>\<open>Math.random\<close>, \<^verbatim>\<open>Date.now\<close>, \<^verbatim>\<open>JSON.parse\<close> and
  \<^verbatim>\<open>JSON.stringify\<close> are parameters. An asynchronous function that throws is a function
  that returns \<open>Inl\<close> of the exception. Line numbers are those of the source files.
\<close>

section \<open>JavaScript values\<close>

text \<open>
  The oracle's reply is text that \<^verbatim>\<open>JSON.parse\<close> turns into a value of any shape, and the
  source reads fields off that value without checking it. Parsed values are therefore
  modelled untyped. Numbers are integers here (the only numbers the code compares with are
  429 and 0), a string is the list of the bytes of its UTF-8 encoding (the texts that the
  code searches for, removes or compares with are ASCII, and so are found in the bytes
  exactly where they are found in the characters; a text with an unpaired surrogate has
  no such encoding and is left out), and the keys of an object are distinct,
  as \<^verbatim>\<open>JSON.parse\<close> delivers them. A property that is absent reads as \<^verbatim>\<open>undefined\<close>,
  which is \<open>None\<close>.
\<close>

datatype json =
    JNull
  | JBool bool
  | JNum int
  | JStr string
  | JArr "json list"
  | JObj "(string \<times> json) list"

fun truthy :: "json \<Rightarrow> bool" where
  "truthy JNull = False"
| "truthy (JBool b) = b"
| "truthy (JNum n) = (n \<noteq> 0)"
| "truthy (JStr s) = (s \<noteq> [])"
| "truthy (JArr xs) = True"
| "truthy (JObj kvs) = True"

text \<open>\<^verbatim>\<open>v || d\<close> where \<open>v\<close> may be \<^verbatim>\<open>undefined\<close>.\<close>

fun or_else :: "json option \<Rightarrow> json \<Rightarrow> json" where
  "or_else None d = d"
| "or_else (Some v) d = (if truthy v then v else d)"

text \<open>
  An exception value: an \<^verbatim>\<open>Error\<close> object with its string \<^verbatim>\<open>message\<close> and the optional
  \<^verbatim>\<open>status\<close> and \<^verbatim>\<open>code\<close> fields that the handlers inspect.
\<close>

record err =
  err_status :: "json option"
  err_code :: "json option"
  err_message :: string

definition Error :: "string \<Rightarrow> err" where
  "Error msg = \<lparr>err_status = None, err_code = None, err_message = msg\<rparr>"

text \<open>
  The \<^verbatim>\<open>TypeError\<close>s the engine raises on values of the wrong shape (wording of V8; no
  engine's wording mentions 429 or quota).
\<close>

definition TypeError_map :: err where
  "TypeError_map = Error ''rawLinks.map is not a function''"

definition TypeError_null_map :: err where
  "TypeError_null_map = Error ''Cannot read properties of null (reading 'map')''"

definition TypeError_null :: err where
  "TypeError_null = Error ''Cannot read properties of null (reading 'url')''"

definition TypeError_match :: err where
  "TypeError_match = Error ''url.match is not a function''"

definition TypeError_undefined :: err where
  "TypeError_undefined = Error ''Cannot read properties of undefined (reading 'match')''"

definition TypeError_null_match :: err where
  "TypeError_null_match = Error ''Cannot read properties of null (reading 'match')''"

definition TypeError_startsWith :: err where
  "TypeError_startsWith = Error ''child.status.startsWith is not a function''"

text \<open>Reading a property: raises on \<^verbatim>\<open>null\<close>, is \<^verbatim>\<open>undefined\<close> on anything but an object
  that has it.\<close>

fun get_prop :: "json \<Rightarrow> string \<Rightarrow> err + json option" where
  "get_prop JNull k = Inl TypeError_null"
| "get_prop (JObj kvs) k = Inr (map_of kvs k)"
| "get_prop v k = Inr None"

subsection \<open>Strings\<close>

fun startsWith :: "string \<Rightarrow> string \<Rightarrow> bool" where
  "startsWith s [] = True"
| "startsWith [] (p # ps) = False"
| "startsWith (c # cs) (p # ps) = (c = p \<and> startsWith cs ps)"

fun includes_str :: "string \<Rightarrow> string \<Rightarrow> bool" where
  "includes_str [] p = (p = [])"
| "includes_str (c # cs) p = (startsWith (c # cs) p \<or> includes_str cs p)"

text \<open>Lower case of an ASCII letter; the \<^verbatim>\<open>i\<close> flag of a regular expression without the
  \<^verbatim>\<open>u\<close> flag folds no character outside ASCII onto an ASCII letter.\<close>

definition lower :: "char \<Rightarrow> char" where
  "lower c = (case map_of (zip ''ABCDEFGHIJKLMNOPQRSTUVWXYZ'' ''abcdefghijklmnopqrstuvwxyz'') c of
                None \<Rightarrow> c | Some d \<Rightarrow> d)"

text \<open>\<^verbatim>\<open>url.match(/\.ext$/i)\<close> for a lower-case \<open>ext\<close>: the last characters of the text are a
  dot and the extension, in any case.\<close>

definition has_ext :: "string \<Rightarrow> string \<Rightarrow> bool" where
  "has_ext u ext =
    (length ext < length u \<and>
     map lower (drop (length u - Suc (length ext)) u) = CHR ''.'' # ext)"

section \<open>Content-Type Classifier\<close>

datatype ContentType =
    text_html | application_json | image_jpeg | image_png
  | text_css | application_javascript | application_pdf | other

definition guessContentType :: "string \<Rightarrow> ContentType" where
  "guessContentType u =
    (if has_ext u ''jpg'' \<or> has_ext u ''jpeg'' \<or> has_ext u ''gif'' \<or> has_ext u ''webp''
       then image_jpeg
     else if has_ext u ''png'' then image_png
     else if has_ext u ''js'' then application_javascript
     else if has_ext u ''css'' then text_css
     else if has_ext u ''pdf'' then application_pdf
     else if has_ext u ''json'' then application_json
     else text_html)"

section \<open>Configuration and nodes\<close>

text \<open>\<^verbatim>\<open>CrawlConfig\<close> of types.ts. The form offers depths 1 to 5 and page budgets 50 to 500;
  the type allows any number.\<close>

record CrawlConfig =
  url :: string
  maxDepth :: int
  maxPages :: int
  delay :: int
  respectRobots :: bool
  renderJS :: bool
  includeAssets :: bool

text \<open>
  \<^verbatim>\<open>LinkNode\<close> of types.ts. The fields \<^verbatim>\<open>errorReason\<close> and \<^verbatim>\<open>headers\<close> are never written by
  the crawl and are left out. \<^verbatim>\<open>title\<close>, \<^verbatim>\<open>status\<close>, \<^verbatim>\<open>type\<close> and \<^verbatim>\<open>discoverySource\<close> of a
  child are whatever the oracle sent (the source casts them with \<^verbatim>\<open>as any\<close>), so they are
  untyped values. \<open>node_id\<close>, \<open>ltype\<close> and \<open>size_kb\<close> are the fields \<^verbatim>\<open>id\<close>, \<^verbatim>\<open>type\<close> and
  \<^verbatim>\<open>size\<close>.
\<close>

record LinkNode =
  node_id :: string
  url :: string
  title :: json
  depth :: int
  parentId :: "string option"
  status :: json
  ltype :: json
  contentType :: ContentType
  size_kb :: "int option"
  discoverySource :: json
  detectedTech :: "string list option"
  scanned :: bool
  responseTime :: "int option"

section \<open>Oracle Client\<close>

text \<open>
  What one call of \<^verbatim>\<open>generateContent\<close> does: it answers with \<^verbatim>\<open>response.text\<close> (which may be
  \<^verbatim>\<open>undefined\<close>) or raises. Within one \<^verbatim>\<open>fetchPageLinks\<close> every pair of key index and attempt
  number is called at most once, so the oracle of one expansion is a function of the two.
  Creating the client for a key (line 66) sends nothing and is not an effect here.
  \<open>rand100 i\<close> and \<open>rand200 i\<close> are the values of \<^verbatim>\<open>Math.floor(Math.random() * 100)\<close> and
  \<^verbatim>\<open>Math.floor(Math.random() * 200)\<close> drawn for the \<open>i\<close>-th link of the reply.
\<close>

datatype response = Reply "string option" | Fail err

record call_env =
  oracle_reply :: "nat \<Rightarrow> nat \<Rightarrow> response"
  rand100 :: "nat \<Rightarrow> int"
  rand200 :: "nat \<Rightarrow> int"

text \<open>The effects of an expansion, in order: requests to the oracle with the key at an
  index, and timed waits in milliseconds.\<close>

datatype action = Call nat | Wait int

text \<open>
  \<^verbatim>\<open>text.replace(/```json/g, '').replace(/```/g, '').trim()\<close>. \<^verbatim>\<open>trim\<close> removes from both
  ends the white space and the line terminators of ECMAScript: tab, line feed, vertical
  tab, form feed, carriage return and space, and the characters U+00A0, U+1680, U+2000 to
  U+200A, U+2028, U+2029, U+202F, U+205F, U+3000 and U+FEFF, which are two or three bytes
  each.
\<close>

fun removeAll_str :: "string \<Rightarrow> string \<Rightarrow> string" where
  "removeAll_str pat [] = []"
| "removeAll_str pat (c # cs) =
     (if pat \<noteq> [] \<and> startsWith (c # cs) pat
      then removeAll_str pat (drop (length pat - 1) cs)
      else c # removeAll_str pat cs)"

definition white_space :: "string list" where
  "white_space =
    [[CHR 0x09], [CHR 0x0A], [CHR 0x0B], [CHR 0x0C], [CHR 0x0D], [CHR 0x20],
     [CHR 0xC2, CHR 0xA0], [CHR 0xE1, CHR 0x9A, CHR 0x80],
     [CHR 0xE2, CHR 0x80, CHR 0x80], [CHR 0xE2, CHR 0x80, CHR 0x81],
     [CHR 0xE2, CHR 0x80, CHR 0x82], [CHR 0xE2, CHR 0x80, CHR 0x83],
     [CHR 0xE2, CHR 0x80, CHR 0x84], [CHR 0xE2, CHR 0x80, CHR 0x85],
     [CHR 0xE2, CHR 0x80, CHR 0x86], [CHR 0xE2, CHR 0x80, CHR 0x87],
     [CHR 0xE2, CHR 0x80, CHR 0x88], [CHR 0xE2, CHR 0x80, CHR 0x89],
     [CHR 0xE2, CHR 0x80, CHR 0x8A], [CHR 0xE2, CHR 0x80, CHR 0xA8],
     [CHR 0xE2, CHR 0x80, CHR 0xA9], [CHR 0xE2, CHR 0x80, CHR 0xAF],
     [CHR 0xE2, CHR 0x81, CHR 0x9F], [CHR 0xE3, CHR 0x80, CHR 0x80],
     [CHR 0xEF, CHR 0xBB, CHR 0xBF]]"

text \<open>Removes from the front of a text every leading occurrence of one of the byte
  sequences \<open>ps\<close> (none of which is empty).\<close>

fun strip_start :: "string list \<Rightarrow> string \<Rightarrow> string" where
  "strip_start ps [] = []"
| "strip_start ps (c # cs) =
     (case find (startsWith (c # cs)) (filter (\<lambda>p. p \<noteq> []) ps) of
        None \<Rightarrow> c # cs
      | Some p \<Rightarrow> strip_start ps (drop (length p - 1) cs))"

definition trim :: "string \<Rightarrow> string" where
  "trim s = rev (strip_start (map rev white_space) (rev (strip_start white_space s)))"

definition cleanText :: "string \<Rightarrow> string" where
  "cleanText t = trim (removeAll_str ''```'' (removeAll_str ''```json'' t))"

text \<open>
  \<^verbatim>\<open>currentDepth + 1\<close>. A depth is a JavaScript number, an IEEE double. The depths of a
  crawl are the integers from 0 to \<open>2 ^ 53\<close>: the seed has depth 0 and every other depth is
  made by this addition, which is exact below \<open>2 ^ 53\<close>, while \<open>2 ^ 53 + 1\<close> is rounded to
  \<open>2 ^ 53\<close>. Depths are modelled as these integers.
\<close>

definition plus_one :: "int \<Rightarrow> int" where
  "plus_one d = (if d < 2 ^ 53 then d + 1 else d)"

text \<open>The object built for one element of the parsed array (lines 93 to 107).\<close>

definition mk_link :: "call_env \<Rightarrow> string \<Rightarrow> int \<Rightarrow> nat \<Rightarrow> json \<Rightarrow> err + LinkNode" where
  "mk_link w cur_url cur_depth i link =
    (case get_prop link ''url'' of
       Inl e \<Rightarrow> Inl e
     | Inr (Some (JStr u)) \<Rightarrow>
         Inr \<lparr> node_id = u, url = u,
               title = or_else (case get_prop link ''title'' of Inr v \<Rightarrow> v | Inl _ \<Rightarrow> None) (JStr ''Untitled''),
               depth = plus_one cur_depth,
               parentId = Some cur_url,
               status = or_else (case get_prop link ''status'' of Inr v \<Rightarrow> v | Inl _ \<Rightarrow> None) (JStr ''200''),
               ltype = or_else (case get_prop link ''type'' of Inr v \<Rightarrow> v | Inl _ \<Rightarrow> None) (JStr ''internal''),
               contentType = guessContentType u,
               size_kb = Some (rand100 w i + 5),
               discoverySource =
                 or_else (case get_prop link ''discoverySource'' of Inr v \<Rightarrow> v | Inl _ \<Rightarrow> None) (JStr ''anchor''),
               detectedTech = Some [],
               scanned = False,
               responseTime = Some (rand200 w i + 20) \<rparr>
     | Inr None \<Rightarrow> Inl TypeError_undefined
     | Inr (Some JNull) \<Rightarrow> Inl TypeError_null_match
     | Inr _ \<Rightarrow> Inl TypeError_match)"

fun map_links :: "call_env \<Rightarrow> string \<Rightarrow> int \<Rightarrow> nat \<Rightarrow> json list \<Rightarrow> err + LinkNode list" where
  "map_links w cur_url cur_depth i [] = Inr []"
| "map_links w cur_url cur_depth i (link # links) =
     (case mk_link w cur_url cur_depth i link of
        Inl e \<Rightarrow> Inl e
      | Inr n \<Rightarrow> (case map_links w cur_url cur_depth (Suc i) links of
                    Inl e \<Rightarrow> Inl e
                  | Inr ns \<Rightarrow> Inr (n # ns)))"

text \<open>
  The body of the \<^verbatim>\<open>try\<close> (lines 71 to 109) for the reply of one attempt: \<open>Inr\<close> is the list
  it returns, \<open>Inl\<close> the exception that reaches the \<^verbatim>\<open>catch\<close> of line 111. \<open>parse\<close> stands
  for \<^verbatim>\<open>JSON.parse\<close>, with \<open>None\<close> where it raises.
\<close>

definition try_body ::
  "(string \<Rightarrow> json option) \<Rightarrow> call_env \<Rightarrow> string \<Rightarrow> int \<Rightarrow> response \<Rightarrow> err + LinkNode list" where
  "try_body parse w cur_url cur_depth r =
    (case r of
       Fail e \<Rightarrow> Inl e
     | Reply None \<Rightarrow> Inr []
     | Reply (Some t) \<Rightarrow>
         (if t = [] then Inr []
          else (case parse (cleanText t) of
                  None \<Rightarrow> Inr []
                | Some (JArr rawLinks) \<Rightarrow> map_links w cur_url cur_depth 0 rawLinks
                | Some JNull \<Rightarrow> Inl TypeError_null_map
                | Some _ \<Rightarrow> Inl TypeError_map)))"

definition isQuotaError :: "err \<Rightarrow> bool" where
  "isQuotaError e =
    (err_status e = Some (JNum 429) \<or>
     err_code e = Some (JNum 429) \<or>
     err_status e = Some (JStr ''RESOURCE_EXHAUSTED'') \<or>
     (err_message e \<noteq> [] \<and> (includes_str (err_message e) ''429'' \<or> includes_str (err_message e) ''quota'')))"

text \<open>How the inner loop over the attempts of one key ends.\<close>

datatype outcome =
    Returned "LinkNode list" nat
  | Thrown err
  | NextKey "err option"

definition after :: "action list \<Rightarrow> 'a \<times> action list \<Rightarrow> 'a \<times> action list" where
  "after pre r = (fst r, pre @ snd r)"

function attempts ::
  "(string \<Rightarrow> json option) \<Rightarrow> call_env \<Rightarrow> string \<Rightarrow> int \<Rightarrow> nat \<Rightarrow> nat \<Rightarrow> err option
     \<Rightarrow> outcome \<times> action list" where
  "attempts parse w cur_url cur_depth keyIdx attempt lastError =
    (if attempt < 3 then
       (case try_body parse w cur_url cur_depth (oracle_reply w keyIdx attempt) of
          Inr links \<Rightarrow> (Returned links keyIdx, [Call keyIdx])
        | Inl e \<Rightarrow>
            (if isQuotaError e then
               (if attempt < 2
                then after [Call keyIdx, Wait 10000]
                       (attempts parse w cur_url cur_depth keyIdx (attempt + 1) (Some e))
                else (NextKey (Some e), [Call keyIdx]))
             else if attempt = 2 then (Thrown e, [Call keyIdx])
             else after [Call keyIdx, Wait (2000 * (int attempt + 1))]
                    (attempts parse w cur_url cur_depth keyIdx (attempt + 1) (Some e))))
     else (NextKey lastError, []))"
  by pat_completeness auto
termination
  by (relation "measure (\<lambda>(parse, w, cur_url, cur_depth, keyIdx, attempt, lastError). 3 - attempt)") auto

function keys_loop ::
  "(string \<Rightarrow> json option) \<Rightarrow> call_env \<Rightarrow> string list \<Rightarrow> string \<Rightarrow> int \<Rightarrow> nat \<Rightarrow> err option
     \<Rightarrow> (err + LinkNode list \<times> nat) \<times> action list" where
  "keys_loop parse w apiKeys cur_url cur_depth keyIdx lastError =
    (if keyIdx < length apiKeys then
       (case attempts parse w cur_url cur_depth keyIdx 0 lastError of
          (Returned links k, t) \<Rightarrow> (Inr (links, k), t)
        | (Thrown e, t) \<Rightarrow> (Inl e, t)
        | (NextKey le, t) \<Rightarrow> after t (keys_loop parse w apiKeys cur_url cur_depth (keyIdx + 1) le))
     else (case lastError of
             Some e \<Rightarrow> (Inl e, [])
           | None \<Rightarrow> (Inr ([], length apiKeys - 1), [])))"
  by pat_completeness auto
termination
  by (relation "measure (\<lambda>(parse, w, apiKeys, cur_url, cur_depth, keyIdx, lastError). length apiKeys - keyIdx)") auto

definition fetchPageLinks ::
  "(string \<Rightarrow> json option) \<Rightarrow> call_env \<Rightarrow> string list \<Rightarrow> nat \<Rightarrow> string \<Rightarrow> string \<Rightarrow> int
     \<Rightarrow> (err + LinkNode list \<times> nat) \<times> action list" where
  "fetchPageLinks parse w apiKeys activeKeyIndex cur_url rootUrl cur_depth =
    (if apiKeys = [] then (Inl (Error ''No API Keys provided.''), [])
     else if guessContentType cur_url \<noteq> text_html then (Inr ([], activeKeyIndex), [])
     else keys_loop parse w apiKeys cur_url cur_depth activeKeyIndex None)"

section \<open>Traversal Engine\<close>

datatype CrawlStatus = IDLE | RUNNING | PAUSED | COMPLETED | FAILED

text \<open>\<^verbatim>\<open>CrawlStats\<close> of types.ts. The counters are JavaScript numbers; they are modelled as
  integers, and the sums that the code forms are exact as long as they stay below
  \<open>2 ^ 53\<close>.\<close>

record CrawlStats =
  totalLinks :: int
  scannedPages :: int
  queuedPages :: int
  errors :: int
  assetsFound :: int
  totalSizeKB :: int
  startTime :: int
  currentUrl :: string
  depthReached :: int

text \<open>
  Where the chain of \<^verbatim>\<open>processQueue\<close> invocations stands: none pending, one about to run
  (called by \<^verbatim>\<open>startRecursiveCrawl\<close> or set up with \<^verbatim>\<open>setTimeout\<close>), or one suspended at
  the \<^verbatim>\<open>await\<close>s of lines 201 to 211 with its \<^verbatim>\<open>currentNode\<close>.
\<close>

datatype task = NoTask | Scheduled | Awaiting LinkNode

text \<open>
  The refs of the component (\<^verbatim>\<open>queueRef\<close>, \<^verbatim>\<open>visitedRef\<close>, \<^verbatim>\<open>nodesRef\<close>, \<^verbatim>\<open>isRunningRef\<close>,
  \<^verbatim>\<open>currentKeyIndexRef\<close>, \<^verbatim>\<open>apiKeysRef\<close>), the React state \<^verbatim>\<open>status\<close> (here
  \<open>crawl_status\<close>) and \<^verbatim>\<open>stats\<close>, the calls
  of \<^verbatim>\<open>analyzeOrphans\<close> made so far (key and node list passed), and the pending task.
  A state setter is modelled as an assignment made at the call. \<open>stats\<close> is \<open>None\<close> once an
  updater has raised (it reads \<^verbatim>\<open>n.status.startsWith\<close> on every node); what React does then
  is outside the model. Log lines, the scan stage and the displayed key index are
  presentation and are left out.
\<close>

record engine =
  queue :: "LinkNode list"
  visited :: "string set"
  nodes :: "LinkNode list"
  isRunning :: bool
  currentKeyIndex :: nat
  apiKeys :: "string list"
  crawl_status :: CrawlStatus
  stats :: "CrawlStats option"
  reports :: "(string \<times> LinkNode list) list"
  task :: task

text \<open>\<^verbatim>\<open>JSON.parse\<close> and \<^verbatim>\<open>JSON.stringify\<close> (of an exception) are library functions, taken as
  parameters.\<close>

record lib =
  JSON_parse :: "string \<Rightarrow> json option"
  JSON_stringify :: "err \<Rightarrow> string"

text \<open>\<^verbatim>\<open>findIndex\<close> on the id, then assignment of a copy at that index.\<close>

fun replaceFirst :: "LinkNode \<Rightarrow> LinkNode list \<Rightarrow> LinkNode list" where
  "replaceFirst u [] = []"
| "replaceFirst u (n # ns) = (if node_id n = node_id u then u # ns else n # replaceFirst u ns)"

definition updateNodeState :: "LinkNode \<Rightarrow> engine \<Rightarrow> engine" where
  "updateNodeState updatedNode s = s\<lparr>nodes := replaceFirst updatedNode (nodes s)\<rparr>"

definition rootNode :: "CrawlConfig \<Rightarrow> LinkNode" where
  "rootNode cfg =
    \<lparr> node_id = CrawlConfig.url cfg, url = CrawlConfig.url cfg, title = JStr ''Root'', depth = 0,
      parentId = None, status = JStr ''pending'', ltype = JStr ''internal'',
      contentType = text_html, size_kb = None, discoverySource = JStr ''anchor'',
      detectedTech = None, scanned = False, responseTime = None \<rparr>"

definition finishCrawl :: "engine \<Rightarrow> engine" where
  "finishCrawl s =
    (let s1 = s\<lparr>crawl_status := COMPLETED, isRunning := False\<rparr>
     in if currentKeyIndex s1 < length (apiKeys s1) \<and> apiKeys s1 ! currentKeyIndex s1 \<noteq> []
        then s1\<lparr>reports := reports s1 @ [(apiKeys s1 ! currentKeyIndex s1, nodes s1)]\<rparr>
        else s1)"

definition stopCrawl :: "engine \<Rightarrow> engine" where
  "stopCrawl s = s\<lparr>isRunning := False, crawl_status := IDLE\<rparr>"

text \<open>
  \<^verbatim>\<open>processQueue\<close> from its call to the first \<^verbatim>\<open>await\<close> (lines 179 to 201), or to its return
  when it finishes the crawl or skips a node at the depth limit. The source writes the new
  status into the \<^verbatim>\<open>currentNode\<close> object, which the node list still shares with the queue,
  and then has \<^verbatim>\<open>updateNodeState\<close> put a copy in its place; with ids that occur once both
  amount to replacing the entry.
\<close>

definition processQueue :: "CrawlConfig \<Rightarrow> engine \<Rightarrow> engine" where
  "processQueue cfg s =
    (if \<not> isRunning s \<or> queue s = [] \<or> int (length (nodes s)) \<ge> maxPages cfg
     then (finishCrawl s)\<lparr>task := NoTask\<rparr>
     else (case queue s of
             [] \<Rightarrow> s\<lparr>task := NoTask\<rparr>
           | currentNode # rest \<Rightarrow>
               (let s1 = s\<lparr>queue := rest,
                            stats := map_option
                              (\<lambda>prev. prev\<lparr>currentUrl := url currentNode,
                                            queuedPages := int (length rest)\<rparr>) (stats s)\<rparr>
                in if depth currentNode \<ge> maxDepth cfg then s1\<lparr>task := Scheduled\<rparr>
                   else (let scanning = currentNode\<lparr>status := JStr ''scanning''\<rparr>
                         in (updateNodeState scanning s1)\<lparr>task := Awaiting scanning\<rparr>))))"

text \<open>
  The loop over the children (lines 221 to 231). \<open>Some e\<close> in the result is the exception
  that ended it: \<^verbatim>\<open>child.status.startsWith\<close> is not a function when the status the oracle
  sent is not a string, and the child has been recorded by then.
\<close>

fun merge_children :: "LinkNode list \<Rightarrow> engine \<Rightarrow> engine \<times> err option" where
  "merge_children [] s = (s, None)"
| "merge_children (child # children) s =
    (if url child \<notin> visited s then
       (let s1 = s\<lparr>visited := insert (url child) (visited s), nodes := nodes s @ [child]\<rparr>;
            s2 = (if ltype child = JStr ''internal'' \<and> contentType child = text_html
                  then s1\<lparr>queue := queue s1 @ [child]\<rparr> else s1)
        in (case status child of
              JStr st \<Rightarrow> merge_children children s2
            | _ \<Rightarrow> (s2, Some TypeError_startsWith)))
     else merge_children children s)"

text \<open>\<^verbatim>\<open>n.status.startsWith('4')\<close> for every node; \<open>None\<close> when it raises.\<close>

fun count_errors :: "LinkNode list \<Rightarrow> int option" where
  "count_errors [] = Some 0"
| "count_errors (n # ns) =
    (case status n of
       JStr st \<Rightarrow> map_option (\<lambda>k. (if startsWith st ''4'' then 1 else 0) + k) (count_errors ns)
     | _ \<Rightarrow> None)"

definition size_or_0 :: "LinkNode \<Rightarrow> int" where
  "size_or_0 c = (case size_kb c of None \<Rightarrow> 0 | Some z \<Rightarrow> z)"

text \<open>The updater of lines 238 to 247.\<close>

definition update_stats :: "engine \<Rightarrow> LinkNode \<Rightarrow> LinkNode list \<Rightarrow> CrawlStats \<Rightarrow> CrawlStats option" where
  "update_stats s currentNode children prev =
    map_option
      (\<lambda>errs. prev\<lparr> totalLinks := int (length (nodes s)),
                    scannedPages := scannedPages prev + 1,
                    queuedPages := int (length (queue s)),
                    errors := errs,
                    assetsFound := int (length (filter (\<lambda>n. ltype n = JStr ''resource'') (nodes s))),
                    depthReached := max (depthReached prev) (depth currentNode),
                    totalSizeKB := totalSizeKB prev + sum_list (map size_or_0 children) \<rparr>)
      (count_errors (nodes s))"

text \<open>\<^verbatim>\<open>toString()\<close> of a number or a string.\<close>

function dec :: "nat \<Rightarrow> string" where
  "dec n = (if n < 10 then [char_of (48 + n)] else dec (n div 10) @ [char_of (48 + n mod 10)])"
  by pat_completeness auto
termination
  by (relation "measure id") auto

fun join_comma :: "string list \<Rightarrow> string" where
  "join_comma [] = []"
| "join_comma [x] = x"
| "join_comma (x # y # ys) = x @ CHR '','' # join_comma (y # ys)"

fun toString :: "json \<Rightarrow> string" where
  "toString (JNum i) = (if i < 0 then CHR ''-'' # dec (nat (- i)) else dec (nat i))"
| "toString (JStr s) = s"
| "toString (JBool b) = (if b then ''true'' else ''false'')"
| "toString JNull = ''null''"
| "toString (JArr xs) = join_comma (map (\<lambda>x. if x = JNull then [] else toString x) xs)"
| "toString (JObj kvs) = ''[object Object]''"

text \<open>The \<^verbatim>\<open>catch\<close> of lines 251 to 266: the status the failed node gets.\<close>

definition failed_status :: "lib \<Rightarrow> err \<Rightarrow> string" where
  "failed_status l e =
    (let errorMsg = (if err_message e \<noteq> [] then err_message e else JSON_stringify l e);
         st = toString (case err_status e of
                          Some v \<Rightarrow> (if truthy v then v
                                     else or_else (err_code e) (JStr ''500''))
                        | None \<Rightarrow> or_else (err_code e) (JStr ''500''))
     in if st = ''404'' \<or> includes_str errorMsg ''404'' then ''404''
        else if st = ''403'' \<or> includes_str errorMsg ''403'' then ''403''
        else ''500'')"

text \<open>
  \<^verbatim>\<open>processQueue\<close> from the \<^verbatim>\<open>await\<close>s to its end (lines 201 to 267), for the behaviour \<open>w\<close>
  of the oracle during this expansion.
\<close>

definition processQueue_resume :: "CrawlConfig \<Rightarrow> lib \<Rightarrow> call_env \<Rightarrow> LinkNode \<Rightarrow> engine \<Rightarrow> engine" where
  "processQueue_resume cfg l w currentNode s =
    (let caught = (\<lambda>e s'. updateNodeState (currentNode\<lparr>status := JStr (failed_status l e)\<rparr>) s');
         s_end =
          (case fst (fetchPageLinks (JSON_parse l) w (apiKeys s) (currentKeyIndex s)
                       (url currentNode) (CrawlConfig.url cfg) (depth currentNode)) of
             Inl e \<Rightarrow> caught e s
           | Inr (children, usedKeyIndex) \<Rightarrow>
               (let s1 = (if usedKeyIndex \<noteq> currentKeyIndex s
                          then s\<lparr>currentKeyIndex := usedKeyIndex\<rparr> else s)
                in (case merge_children children s1 of
                      (s2, Some e) \<Rightarrow> caught e s2
                    | (s2, None) \<Rightarrow>
                        (let done = currentNode\<lparr>status := JStr ''200'', scanned := True\<rparr>;
                             s3 = updateNodeState done s2
                         in s3\<lparr>stats := Option.bind (stats s3) (update_stats s3 done children)\<rparr>))))
     in s_end\<lparr>task := Scheduled\<rparr>)"

text \<open>
  \<^verbatim>\<open>startRecursiveCrawl\<close> up to its call of \<^verbatim>\<open>processQueue\<close> (lines 138 to 173); \<open>now\<close> is
  \<^verbatim>\<open>Date.now()\<close>. The pool is connected exactly when it holds a key. The task it sets is
  the chain of \<^verbatim>\<open>processQueue\<close> invocations that it starts. It cancels nothing: a
  \<^verbatim>\<open>processQueue\<close> of an earlier run that is still pending goes on, on the refs that this
  function has reset. The field \<open>task\<close> holds one chain, so that case is not in \<open>crawl\<close>; it
  is in \<open>session\<close> below, which keeps every chain.
\<close>

definition startRecursiveCrawl :: "CrawlConfig \<Rightarrow> int \<Rightarrow> engine \<Rightarrow> engine" where
  "startRecursiveCrawl cfg now s =
    (if CrawlConfig.url cfg = [] \<or> apiKeys s = [] \<or> crawl_status s = RUNNING then s
     else s\<lparr> crawl_status := RUNNING, isRunning := True,
             nodes := [rootNode cfg], visited := {CrawlConfig.url cfg}, queue := [rootNode cfg],
             stats := Some \<lparr> totalLinks = 1, scannedPages = 0, queuedPages = 1, errors = 0,
                             assetsFound = 0, totalSizeKB = 0, startTime = now,
                             currentUrl = CrawlConfig.url cfg, depthReached = 0 \<rparr>,
             task := Scheduled \<rparr>)"

text \<open>The component before a crawl: a pool of keys with its cursor, nothing else.\<close>

definition idle :: "string list \<Rightarrow> nat \<Rightarrow> engine" where
  "idle keys k0 =
    \<lparr> queue = [], visited = {}, nodes = [], isRunning = False, currentKeyIndex = k0,
      apiKeys = keys, crawl_status = IDLE,
      stats = Some \<lparr> totalLinks = 0, scannedPages = 0, queuedPages = 0, errors = 0,
                      assetsFound = 0, totalSizeKB = 0, startTime = 0, currentUrl = [],
                      depthReached = 0 \<rparr>,
      reports = [], task = NoTask \<rparr>"

text \<open>
  What happens during a run: the pending \<^verbatim>\<open>processQueue\<close> is invoked, the suspended one
  resumes with what the oracle did, or the user presses the abort button (shown while the
  status is \<^verbatim>\<open>RUNNING\<close>).
\<close>

datatype event = Invoke | Fetched call_env | Stop

definition fire :: "CrawlConfig \<Rightarrow> lib \<Rightarrow> engine \<Rightarrow> event \<Rightarrow> engine" where
  "fire cfg l s ev =
    (case ev of
       Invoke \<Rightarrow> (if task s = Scheduled then processQueue cfg s else s)
     | Fetched w \<Rightarrow> (case task s of Awaiting currentNode \<Rightarrow> processQueue_resume cfg l w currentNode s
                    | _ \<Rightarrow> s)
     | Stop \<Rightarrow> (if crawl_status s = RUNNING then stopCrawl s else s))"

text \<open>
  One crawl run with one chain: \<^verbatim>\<open>startRecursiveCrawl\<close>, which calls \<^verbatim>\<open>processQueue\<close> at
  once, then any sequence of events. These are the runs that start while no
  \<^verbatim>\<open>processQueue\<close> of an earlier run is pending.
\<close>

definition crawl :: "CrawlConfig \<Rightarrow> lib \<Rightarrow> int \<Rightarrow> engine \<Rightarrow> event list \<Rightarrow> engine" where
  "crawl cfg l now s0 evs = foldl (fire cfg l) (startRecursiveCrawl cfg now s0) (Invoke # evs)"

text \<open>The nodes that \<^verbatim>\<open>queueRef.current.shift()\<close> hands out, in order.\<close>

definition shifted :: "CrawlConfig \<Rightarrow> engine \<Rightarrow> event \<Rightarrow> LinkNode list" where
  "shifted cfg s ev =
    (case ev of
       Invoke \<Rightarrow>
         (if task s = Scheduled \<and> isRunning s \<and> queue s \<noteq> [] \<and>
             int (length (nodes s)) < maxPages cfg
          then [hd (queue s)] else [])
     | _ \<Rightarrow> [])"

fun dequeue_order :: "CrawlConfig \<Rightarrow> lib \<Rightarrow> engine \<Rightarrow> event list \<Rightarrow> LinkNode list" where
  "dequeue_order cfg l s [] = []"
| "dequeue_order cfg l s (ev # evs) = shifted cfg s ev @ dequeue_order cfg l (fire cfg l s ev) evs"

subsection \<open>Several runs of one component\<close>

text \<open>
  The component over its whole life. The refs and the React state are an \<open>engine\<close> whose
  \<open>task\<close> is not used; \<open>chains\<close> holds, for every \<^verbatim>\<open>startRecursiveCrawl\<close> that went through, where
  its chain of \<^verbatim>\<open>processQueue\<close> invocations stands, with the configuration that the
  closures of this chain have captured. The user presses \<^verbatim>\<open>Initialize Scan\<close> (with the
  configuration of the form at that moment) or \<^verbatim>\<open>Abort Sequence\<close>, the timer of the \<open>i\<close>-th
  chain fires, or the expansion that the \<open>i\<close>-th chain awaits comes back. After
  \<^verbatim>\<open>stopCrawl\<close> the status is \<^verbatim>\<open>IDLE\<close>, so the guard of line 143 lets the next
  \<^verbatim>\<open>startRecursiveCrawl\<close> through while the chain of the stopped run is still pending. Time
  is not kept: every order of the events of different chains is allowed, of which the
  clock admits only some (a timer set earlier fires earlier). The key index that an
  expansion starts from is read here when the expansion comes back; the source reads it
  when the delay of line 201 has passed, which is the same unless another chain has
  rotated the key in between.
\<close>

record session =
  refs :: engine
  chains :: "(CrawlConfig \<times> task) list"

datatype ui_event = Initialize CrawlConfig int | Abort | Timer nat | Resume nat call_env

definition session_step :: "lib \<Rightarrow> session \<Rightarrow> ui_event \<Rightarrow> session" where
  "session_step l S ev =
    (case ev of
       Initialize cfg now \<Rightarrow>
         (if CrawlConfig.url cfg = [] \<or> apiKeys (refs S) = [] \<or> crawl_status (refs S) = RUNNING
          then S
          else (let s = processQueue cfg (startRecursiveCrawl cfg now (refs S))
                in \<lparr>refs = s\<lparr>task := NoTask\<rparr>, chains = chains S @ [(cfg, task s)]\<rparr>))
     | Abort \<Rightarrow> (if crawl_status (refs S) = RUNNING then S\<lparr>refs := stopCrawl (refs S)\<rparr> else S)
     | Timer i \<Rightarrow>
         (if i < length (chains S) then
            (case chains S ! i of
               (cfg, Scheduled) \<Rightarrow>
                 (let s = processQueue cfg (refs S)
                  in \<lparr>refs = s\<lparr>task := NoTask\<rparr>, chains = (chains S)[i := (cfg, task s)]\<rparr>)
             | _ \<Rightarrow> S)
          else S)
     | Resume i w \<Rightarrow>
         (if i < length (chains S) then
            (case chains S ! i of
               (cfg, Awaiting currentNode) \<Rightarrow>
                 (let s = processQueue_resume cfg l w currentNode (refs S)
                  in \<lparr>refs = s\<lparr>task := NoTask\<rparr>, chains = (chains S)[i := (cfg, task s)]\<rparr>)
             | _ \<Rightarrow> S)
          else S))"

definition session :: "lib \<Rightarrow> string list \<Rightarrow> nat \<Rightarrow> ui_event list \<Rightarrow> session" where
  "session l keys k0 evs = foldl (session_step l) \<lparr>refs = idle keys k0, chains = []\<rparr> evs"

text \<open>The events of a run with one chain, as events of the component.\<close>

definition first_chain :: "event \<Rightarrow> ui_event" where
  "first_chain ev = (case ev of Invoke \<Rightarrow> Timer 0 | Fetched w \<Rightarrow> Resume 0 w | Stop \<Rightarrow> Abort)"

text \<open>For every chain, the URL and the depth of the node whose expansion it awaits, if it
  awaits one.\<close>

definition in_flight :: "session \<Rightarrow> (string \<times> int) option list" where
  "in_flight S =
    map (\<lambda>c. case snd c of Awaiting n \<Rightarrow> Some (url n, depth n) | _ \<Rightarrow> None) (chains S)"

section \<open>Predicates used in the statements\<close>

text \<open>
  A quota or rate-limit signal, spelled out independently of the handler of lines 115 to
  119: an error whose status or code is the number 429, whose status is the text
  \<^verbatim>\<open>RESOURCE_EXHAUSTED\<close>, or whose message mentions 429 or quota.
\<close>

abbreviation quota_signal :: "err \<Rightarrow> bool" where
  "quota_signal e \<equiv>
    (err_status e = Some (JNum 429) \<or> err_code e = Some (JNum 429) \<or>
     err_status e = Some (JStr ''RESOURCE_EXHAUSTED'') \<or>
     includes_str (err_message e) ''429'' \<or> includes_str (err_message e) ''quota'')"

text \<open>Every call made with a key from index \<open>i\<close> up to \<open>n\<close> (exclusive), on each of the
  three attempts, raises a quota signal.\<close>

definition all_quota :: "call_env \<Rightarrow> nat \<Rightarrow> nat \<Rightarrow> bool" where
  "all_quota w i n = (\<forall>k a. i \<le> k \<and> k < n \<and> a < 3 \<longrightarrow> (\<exists>e. oracle_reply w k a = Fail e \<and> quota_signal e))"

text \<open>What every child that \<open>fetchPageLinks\<close> returns for a page at depth \<open>d\<close> satisfies.\<close>

definition child_ok :: "int \<Rightarrow> LinkNode \<Rightarrow> bool" where
  "child_ok d c = (node_id c = url c \<and> depth c = plus_one d \<and>
                   contentType c = guessContentType (url c) \<and> \<not> scanned c)"

text \<open>The children that the merge loop puts on the queue.\<close>

definition enqueued :: "LinkNode \<Rightarrow> bool" where
  "enqueued c = (ltype c = JStr ''internal'' \<and> contentType c = text_html)"

text \<open>
  The shape of the node list, the queue and the visited set that every run keeps: a node's
  id is its URL, no URL occurs twice, the visited set holds exactly the URLs of the nodes,
  the queue holds nodes of the node list, each once and none of them scanned. While an
  expansion is in flight its node is in the node list and no longer in the queue.
\<close>

definition wf_lists :: "LinkNode list \<Rightarrow> LinkNode list \<Rightarrow> string set \<Rightarrow> bool" where
  "wf_lists xs q vis =
    ((\<forall>n\<in>set xs. node_id n = url n) \<and> distinct (map url xs) \<and> vis = set (map url xs) \<and>
     set q \<subseteq> set xs \<and> distinct q \<and> (\<forall>n\<in>set q. \<not> scanned n))"

definition consistent :: "engine \<Rightarrow> bool" where
  "consistent s =
    (wf_lists (nodes s) (queue s) (visited s) \<and>
     (case task s of
        Awaiting cn \<Rightarrow> cn \<in> set (nodes s) \<and> cn \<notin> set (queue s) \<and> \<not> scanned cn
      | _ \<Rightarrow> True))"

text \<open>
  Breadth-first shape of the frontier at level \<open>lo\<close>: the queue is sorted by depth and holds
  only the depth \<open>lo\<close> and the depth of its children, and the node of an expansion in
  flight is at depth \<open>lo\<close>.
\<close>

definition bfs_level :: "int \<Rightarrow> engine \<Rightarrow> bool" where
  "bfs_level lo s =
    (sorted (map depth (queue s)) \<and>
     (\<forall>n\<in>set (queue s). lo \<le> depth n \<and> depth n \<le> plus_one lo) \<and>
     (\<forall>cn. task s = Awaiting cn \<longrightarrow> depth cn = lo))"

text \<open>Every node on the queue is the seed node or an \<^verbatim>\<open>internal\<close> node whose URL the
  classifier maps to HTML.\<close>

definition html_frontier :: "CrawlConfig \<Rightarrow> engine \<Rightarrow> bool" where
  "html_frontier cfg s =
    (\<forall>n\<in>set (queue s). n = rootNode cfg \<or>
        (guessContentType (url n) = text_html \<and> ltype n = JStr ''internal''))"

text \<open>The two statistics that agree with the node list in every state of a run: the scanned
  count, and the depth reached as the largest depth of a scanned node (0 when there is
  none).\<close>

definition stats_agree :: "engine \<Rightarrow> bool" where
  "stats_agree s =
    (\<forall>st. stats s = Some st \<longrightarrow>
       scannedPages st = int (length (filter scanned (nodes s))) \<and>
       depthReached st = Max (insert 0 (set (map depth (filter scanned (nodes s))))))"

text \<open>
  What the refs keep whatever chains work on them: a node's id is its URL (in the node
  list and on the queue), no URL occurs twice in the node list, the visited set holds
  exactly the URLs of the nodes, and a node on the queue is the seed node of some run or
  an \<^verbatim>\<open>internal\<close> node whose URL the classifier maps to HTML. In a component with several
  chains, moreover, the node that a chain awaits has its URL as id.
\<close>

definition shared_ok :: "engine \<Rightarrow> bool" where
  "shared_ok s =
    ((\<forall>n\<in>set (nodes s) \<union> set (queue s). node_id n = url n) \<and>
     distinct (map url (nodes s)) \<and> visited s = set (map url (nodes s)) \<and>
     (\<forall>n\<in>set (queue s). (\<exists>cfg. n = rootNode cfg) \<or>
        (guessContentType (url n) = text_html \<and> ltype n = JStr ''internal'')))"

definition session_ok :: "session \<Rightarrow> bool" where
  "session_ok S =
    (shared_ok (refs S) \<and>
     (\<forall>c\<in>set (chains S). \<forall>cn. snd c = Awaiting cn \<longrightarrow> node_id cn = url cn))"

section \<open>Example inputs\<close>

text \<open>Two keys of the length the key form accepts (more than 20 characters).\<close>

definition key_one :: string where
  "key_one = ''AIzaSy-example-key-00001''"

definition key_two :: string where
  "key_two = ''AIzaSy-example-key-00002''"

text \<open>Errors as the oracle's client library raises them, an oracle that always fails,
  and a \<^verbatim>\<open>JSON.parse\<close> that rejects every text.\<close>

definition err429 :: err where
  "err429 = \<lparr>err_status = Some (JNum 429), err_code = None, err_message = ''Too Many Requests''\<rparr>"

text \<open>The other forms of a quota signal: the code 429, the status \<^verbatim>\<open>RESOURCE_EXHAUSTED\<close>, a
  message that mentions 429, and a message that mentions the quota.\<close>

definition err_code429 :: err where
  "err_code429 = \<lparr>err_status = None, err_code = Some (JNum 429), err_message = ''Rate limited''\<rparr>"

definition err_exhausted :: err where
  "err_exhausted =
    \<lparr>err_status = Some (JStr ''RESOURCE_EXHAUSTED''), err_code = None,
     err_message = ''Resource has been exhausted''\<rparr>"

definition err_message429 :: err where
  "err_message429 = Error ''got status: 429 Too Many Requests''"

definition err_message_quota :: err where
  "err_message_quota = Error ''You exceeded your current quota''"

text \<open>An oracle that answers the three calls of the first key with a status 429, a code
  429 and a status \<^verbatim>\<open>RESOURCE_EXHAUSTED\<close>, and the calls of every other key with a message
  that mentions 429, a status 429 and a message that mentions the quota.\<close>

definition quota_failures :: call_env where
  "quota_failures =
    \<lparr>oracle_reply =
       (\<lambda>k a. Fail (if k = 0
                      then (if a = 0 then err429 else if a = 1 then err_code429 else err_exhausted)
                      else (if a = 0 then err_message429 else if a = 1 then err429
                            else err_message_quota))),
     rand100 = (\<lambda>i. 0), rand200 = (\<lambda>i. 0)\<rparr>"

definition err500 :: err where
  "err500 = \<lparr>err_status = Some (JNum 500), err_code = None, err_message = ''Internal error''\<rparr>"

definition always_failing :: "err \<Rightarrow> call_env" where
  "always_failing e = \<lparr>oracle_reply = (\<lambda>k a. Fail e), rand100 = (\<lambda>i. 0), rand200 = (\<lambda>i. 0)\<rparr>"

definition no_parse :: "string \<Rightarrow> json option" where
  "no_parse t = None"

text \<open>An oracle that answers every call with the same text, and a \<^verbatim>\<open>JSON.parse\<close> that
  knows the one text \<^verbatim>\<open>{"links": []}\<close>, an object that wraps an empty list.\<close>

definition always_replying :: "string \<Rightarrow> call_env" where
  "always_replying t = \<lparr>oracle_reply = (\<lambda>k a. Reply (Some t)), rand100 = (\<lambda>i. 0), rand200 = (\<lambda>i. 0)\<rparr>"

definition parse_wrapped :: "string \<Rightarrow> json option" where
  \<open>parse_wrapped t = (if t = ''{"links": []}'' then Some (JObj [(''links'', JArr [])]) else None)\<close>

text \<open>
  A crawl of \<^verbatim>\<open>https://example.test/\<close> with the default configuration and one key. The
  oracle answers the expansion of the seed with three links: a page, the seed itself, and
  a style sheet that it tags \<^verbatim>\<open>internal\<close>. Every random draw is 0, so every child has size 5.
\<close>

definition example_config :: CrawlConfig where
  "example_config =
    \<lparr> CrawlConfig.url = ''https://example.test/'', maxDepth = 3, maxPages = 100, delay = 5000,
      respectRobots = True, renderJS = True, includeAssets = True \<rparr>"

definition example_reply :: string where
  \<open>example_reply =
    ''[{"url":"https://example.test/a"},{"url":"https://example.test/"},{"url":"https://example.test/style.css","type":"internal"}]''\<close>

definition example_lib :: lib where
  "example_lib =
    \<lparr> JSON_parse = (\<lambda>t. if t = example_reply
                        then Some (JArr [JObj [(''url'', JStr ''https://example.test/a'')],
                                         JObj [(''url'', JStr ''https://example.test/'')],
                                         JObj [(''url'', JStr ''https://example.test/style.css''),
                                               (''type'', JStr ''internal'')]])
                        else None),
      JSON_stringify = (\<lambda>e. ''{}'') \<rparr>"

definition example_run :: engine where
  "example_run =
    crawl example_config example_lib 0 (idle [key_one] 0) [Fetched (always_replying example_reply)]"

text \<open>The same crawl, with the abort button pressed while the expansion of the seed is in
  flight.\<close>

definition stopped_run :: engine where
  "stopped_run =
    crawl example_config example_lib 0 (idle [key_one] 0)
      [Stop, Fetched (always_replying example_reply), Invoke]"

text \<open>
  The crawl of the example, aborted and started again while the expansion of the page
  \<^verbatim>\<open>https://example.test/a\<close> (depth 1) is in flight. The oracle answers that expansion with
  one link, to \<^verbatim>\<open>https://example.test/a/b\<close>, and the answer arrives after the second run has
  started and shortly (less than the 100 ms of the timer) before the expansion of its seed
  comes back. Then the timers fire in the order in which they were set: that of the first
  chain, then that of the second. \<open>restart_run n\<close> is the component after the first \<open>n\<close> of
  these events.
\<close>

definition page_a_reply :: string where
  \<open>page_a_reply = ''[{"url":"https://example.test/a/b"}]''\<close>

definition restart_lib :: lib where
  "restart_lib =
    \<lparr> JSON_parse = (\<lambda>t. if t = page_a_reply
                        then Some (JArr [JObj [(''url'', JStr ''https://example.test/a/b'')]])
                        else JSON_parse example_lib t),
      JSON_stringify = (\<lambda>e. ''{}'') \<rparr>"

definition restart_events :: "ui_event list" where
  "restart_events =
    [Initialize example_config 0, Resume 0 (always_replying example_reply), Timer 0,
     Abort, Initialize example_config 1,
     Resume 0 (always_replying page_a_reply), Resume 1 (always_replying example_reply),
     Timer 0, Timer 1]"

definition restart_run :: "nat \<Rightarrow> session" where
  "restart_run n = session restart_lib [key_one] 0 (take n restart_events)"

text \<open>
  A crawl with the smallest page budget the configuration form offers, 50, in which the
  oracle answers the expansion of the seed with 50 links
  \<^verbatim>\<open>https://example.test/0\<close> to \<^verbatim>\<open>https://example.test/49\<close>. Of \<^verbatim>\<open>JSON.parse\<close> the example
  needs one value: the cleaned reply parses to the array of these 50 link objects.
\<close>

definition budget_config :: CrawlConfig where
  "budget_config = example_config\<lparr>maxPages := 50\<rparr>"

definition fifty_urls :: "string list" where
  "fifty_urls = map (\<lambda>i. ''https://example.test/'' @ dec i) [0..<50]"

definition fifty_reply :: string where
  \<open>fifty_reply = ''['' @ join_comma (map (\<lambda>u. ''{"url":"'' @ u @ ''"}'') fifty_urls) @ '']''\<close>

definition fifty_lib :: lib where
  "fifty_lib =
    \<lparr> JSON_parse = (\<lambda>t. if t = cleanText fifty_reply
                        then Some (JArr (map (\<lambda>u. JObj [(''url'', JStr u)]) fifty_urls))
                        else None),
      JSON_stringify = (\<lambda>e. ''{}'') \<rparr>"

section \<open>Properties of the Oracle Client\<close>

declare attempts.simps [simp del] keys_loop.simps [simp del]

lemma try_body_Fail: "try_body parse w u d (Fail e) = Inl e"
  by (simp add: try_body_def)

lemma attempts_quota_retry_gen:
  assumes "try_body parse w u d (oracle_reply w k a) = Inl e" "isQuotaError e" "a < 2"
  shows "attempts parse w u d k a le = after [Call k, Wait 10000] (attempts parse w u d k (Suc a) (Some e))"
  using assms by (subst attempts.simps) simp

lemma attempts_quota_last_gen:
  assumes "try_body parse w u d (oracle_reply w k 2) = Inl e" "isQuotaError e"
  shows "attempts parse w u d k 2 le = (NextKey (Some e), [Call k])"
  using assms by (subst attempts.simps) simp

lemma attempts_other_retry_gen:
  assumes "try_body parse w u d (oracle_reply w k a) = Inl e" "\<not> isQuotaError e" "a < 2"
  shows "attempts parse w u d k a le =
         after [Call k, Wait (2000 * (int a + 1))] (attempts parse w u d k (Suc a) (Some e))"
  using assms by (subst attempts.simps) simp

lemma attempts_other_last_gen:
  assumes "try_body parse w u d (oracle_reply w k 2) = Inl e" "\<not> isQuotaError e"
  shows "attempts parse w u d k 2 le = (Thrown e, [Call k])"
  using assms by (subst attempts.simps) simp

lemma attempts_quota_retry:
  assumes "oracle_reply w k a = Fail e" "isQuotaError e" "a < 2"
  shows "attempts parse w u d k a le = after [Call k, Wait 10000] (attempts parse w u d k (Suc a) (Some e))"
  using assms by (simp add: attempts_quota_retry_gen try_body_Fail)

lemma attempts_other_retry:
  assumes "oracle_reply w k a = Fail e" "\<not> isQuotaError e" "a < 2"
  shows "attempts parse w u d k a le =
         after [Call k, Wait (2000 * (int a + 1))] (attempts parse w u d k (Suc a) (Some e))"
  using assms by (simp add: attempts_other_retry_gen try_body_Fail)

lemma attempts_all_quota:
  assumes "oracle_reply w k 0 = Fail e0" "isQuotaError e0"
    and "oracle_reply w k 1 = Fail e1" "isQuotaError e1"
    and "oracle_reply w k 2 = Fail e2" "isQuotaError e2"
  shows "attempts parse w u d k 0 le =
         (NextKey (Some e2), [Call k, Wait 10000, Call k, Wait 10000, Call k])"
proof -
  have "attempts parse w u d k 0 le = after [Call k, Wait 10000] (attempts parse w u d k (Suc 0) (Some e0))"
    using assms(1,2) by (rule attempts_quota_retry) simp
  also have "attempts parse w u d k (Suc 0) (Some e0) =
      after [Call k, Wait 10000] (attempts parse w u d k (Suc (Suc 0)) (Some e1))"
    using assms(3,4) by (intro attempts_quota_retry) simp_all
  also have "attempts parse w u d k (Suc (Suc 0)) (Some e1) = (NextKey (Some e2), [Call k])"
    using attempts_quota_last_gen [of parse w u d k e2] assms(5,6)
    by (simp add: numeral_2_eq_2 try_body_Fail)
  finally show ?thesis by (simp add: after_def)
qed

text \<open>Three failed attempts of one key, the third with an error that is no quota signal.\<close>

lemma attempts_third_fatal:
  assumes "try_body parse w u d (oracle_reply w k 0) = Inl e0"
    and "try_body parse w u d (oracle_reply w k 1) = Inl e1"
    and "try_body parse w u d (oracle_reply w k 2) = Inl e" "\<not> isQuotaError e"
  shows "attempts parse w u d k 0 le =
         (Thrown e, [Call k, Wait (if isQuotaError e0 then 10000 else 2000),
                     Call k, Wait (if isQuotaError e1 then 10000 else 4000), Call k])"
proof -
  have "attempts parse w u d k 0 le =
      after [Call k, Wait (if isQuotaError e0 then 10000 else 2000)]
        (attempts parse w u d k (Suc 0) (Some e0))"
    using assms(1) attempts_quota_retry_gen [of parse w u d k 0 e0 le]
      attempts_other_retry_gen [of parse w u d k 0 e0 le]
    by (cases "isQuotaError e0") simp_all
  also have "attempts parse w u d k (Suc 0) (Some e0) =
      after [Call k, Wait (if isQuotaError e1 then 10000 else 4000)]
        (attempts parse w u d k (Suc (Suc 0)) (Some e1))"
    using assms(2) attempts_quota_retry_gen [of parse w u d k 1 e1 "Some e0"]
      attempts_other_retry_gen [of parse w u d k 1 e1 "Some e0"]
    by (cases "isQuotaError e1") simp_all
  also have "attempts parse w u d k (Suc (Suc 0)) (Some e1) = (Thrown e, [Call k])"
    using attempts_other_last_gen [OF assms(3,4)] by (simp add: numeral_2_eq_2)
  finally show ?thesis by (simp add: after_def)
qed

lemma keys_loop_thrown:
  assumes "k < length keys" "attempts parse w u d k 0 le = (Thrown e, t)"
  shows "keys_loop parse w keys u d k le = (Inl e, t)"
  using assms by (subst keys_loop.simps) simp

lemma keys_loop_next:
  assumes "k < length keys" "attempts parse w u d k 0 le = (NextKey le', t)"
  shows "keys_loop parse w keys u d k le = after t (keys_loop parse w keys u d (Suc k) le')"
  using assms by (subst keys_loop.simps) simp

lemma keys_loop_end:
  "keys_loop parse w keys u d (length keys) (Some e) = (Inl e, [])"
  by (subst keys_loop.simps) simp

text \<open>The handler of lines 115 to 119 recognises exactly the quota signals.\<close>

lemma includes_str_nonempty: "includes_str m p \<Longrightarrow> p \<noteq> [] \<Longrightarrow> m \<noteq> []"
  by (cases m) auto

lemma isQuotaError_iff: "isQuotaError e \<longleftrightarrow> quota_signal e"
  unfolding isQuotaError_def using includes_str_nonempty [of "err_message e"] by auto

lemma all_quota_at:
  assumes "all_quota w i n" "i \<le> k" "k < n" "a < 3"
  shows "\<exists>e. oracle_reply w k a = Fail e \<and> isQuotaError e"
proof -
  from assms obtain e where "oracle_reply w k a = Fail e" "quota_signal e"
    unfolding all_quota_def by blast
  then show ?thesis using isQuotaError_iff [of e] by blast
qed

lemma all_quota_key:
  assumes "all_quota w i n" "i \<le> k" "k < n"
  shows "\<exists>e. oracle_reply w k 2 = Fail e \<and> isQuotaError e \<and>
           (\<forall>le. attempts parse w u d k 0 le =
              (NextKey (Some e), [Call k, Wait 10000, Call k, Wait 10000, Call k]))"
proof -
  from all_quota_at [OF assms, of 0] obtain e0
    where e0: "oracle_reply w k 0 = Fail e0" "isQuotaError e0" by auto
  from all_quota_at [OF assms, of 1] obtain e1
    where e1: "oracle_reply w k 1 = Fail e1" "isQuotaError e1" by auto
  from all_quota_at [OF assms, of 2] obtain e2
    where e2: "oracle_reply w k 2 = Fail e2" "isQuotaError e2" by auto
  show ?thesis
    using attempts_all_quota [OF e0 e1 e2] e2 by blast
qed

lemma keys_loop_all_quota:
  assumes "i < length keys" "all_quota w i (length keys)"
  shows "\<exists>e. oracle_reply w (length keys - 1) 2 = Fail e \<and> isQuotaError e \<and>
           keys_loop parse w keys u d i le =
           (Inl e, concat (map (\<lambda>k. [Call k, Wait 10000, Call k, Wait 10000, Call k]) [i..<length keys]))"
  using assms
proof (induction "length keys - i" arbitrary: i le)
  case 0
  then show ?case by simp
next
  case (Suc n)
  from all_quota_key [OF Suc.prems(2) le_refl Suc.prems(1)]
  obtain e where e: "oracle_reply w i 2 = Fail e" "isQuotaError e"
    and att: "\<And>le. attempts parse w u d i 0 le =
                (NextKey (Some e), [Call i, Wait 10000, Call i, Wait 10000, Call i])"
    by blast
  have unfold: "keys_loop parse w keys u d i le =
      after [Call i, Wait 10000, Call i, Wait 10000, Call i]
        (keys_loop parse w keys u d (Suc i) (Some e))"
    using keys_loop_next [OF Suc.prems(1) att] .
  have upt: "[i..<length keys] = i # [Suc i..<length keys]"
    using Suc.prems(1) by (simp add: upt_conv_Cons)
  show ?case
  proof (cases "Suc i = length keys")
    case True
    then have "keys_loop parse w keys u d (Suc i) (Some e) = (Inl e, [])"
      using keys_loop_end [of parse w keys u d e] by simp
    moreover have "length keys - 1 = i" using True by simp
    ultimately show ?thesis
      using e unfold upt True by (simp add: after_def)
  next
    case False
    then have lt: "Suc i < length keys" using Suc.prems(1) by simp
    have n: "n = length keys - Suc i" using Suc.hyps(2) by simp
    have aq: "all_quota w (Suc i) (length keys)"
      using Suc.prems(2) unfolding all_quota_def by simp
    from Suc.hyps(1) [OF n lt aq, of "Some e"]
    obtain e' where e': "oracle_reply w (length keys - 1) 2 = Fail e'" "isQuotaError e'"
      "keys_loop parse w keys u d (Suc i) (Some e) =
         (Inl e', concat (map (\<lambda>k. [Call k, Wait 10000, Call k, Wait 10000, Call k]) [Suc i..<length keys]))"
      by blast
    show ?thesis
      using e' unfold upt by (simp add: after_def)
  qed
qed

lemma fetch_html: "keys \<noteq> [] \<Longrightarrow> guessContentType u = text_html \<Longrightarrow>
   fetchPageLinks parse w keys i u r d = keys_loop parse w keys u d i None"
  by (simp add: fetchPageLinks_def)

text \<open>
  Claim C3. A quota signal is an error whose status or code is the number 429, whose
  status is \<^verbatim>\<open>RESOURCE_EXHAUSTED\<close>, or whose message mentions 429 or quota; these are exactly
  the errors that the handler takes for quota errors. When a call raises a quota signal on
  the first or second attempt of a key (\<open>a\<close> is 0 or 1), the loop waits 10000 ms (ten
  seconds) and goes on with the next attempt of the same key. When the third attempt
  raises a quota signal, the attempts of this key end without a result, and the key loop
  goes on with the next key. When all three attempts of a key raise quota signals, the
  calls made with it are exactly three, with two waits of 10000 ms between them. When that
  holds for every key from the starting index on, \<open>fetchPageLinks\<close> raises the last of
  these quota signals, after exactly three calls for each of these keys.
\<close>

theorem quota_cooldown_rotation_exhaustion:
  "(isQuotaError e \<longleftrightarrow> quota_signal e)
   \<and> (oracle_reply w k a = Fail e \<and> quota_signal e \<and> a < 2 \<longrightarrow>
        attempts parse w u d k a le =
        after [Call k, Wait 10000] (attempts parse w u d k (Suc a) (Some e)))
   \<and> (oracle_reply w k 2 = Fail e \<and> quota_signal e \<longrightarrow>
        attempts parse w u d k 2 le = (NextKey (Some e), [Call k]))
   \<and> (k < length keys \<and> attempts parse w u d k 0 le = (NextKey le', t) \<longrightarrow>
        keys_loop parse w keys u d k le = after t (keys_loop parse w keys u d (Suc k) le'))
   \<and> (k < length keys \<and> all_quota w k (Suc k) \<longrightarrow>
        (\<exists>e. oracle_reply w k 2 = Fail e \<and>
           keys_loop parse w keys u d k le =
           after [Call k, Wait 10000, Call k, Wait 10000, Call k]
             (keys_loop parse w keys u d (Suc k) (Some e))))
   \<and> (i < length keys \<and> guessContentType u = text_html \<and> all_quota w i (length keys) \<longrightarrow>
        (\<exists>e. oracle_reply w (length keys - 1) 2 = Fail e \<and> quota_signal e \<and>
           fetchPageLinks parse w keys i u r d =
           (Inl e, concat (map (\<lambda>k. [Call k, Wait 10000, Call k, Wait 10000, Call k])
                             [i..<length keys]))))"
proof (intro conjI impI)
  show "isQuotaError e \<longleftrightarrow> quota_signal e" by (rule isQuotaError_iff)
next
  assume "oracle_reply w k a = Fail e \<and> quota_signal e \<and> a < 2"
  then have "oracle_reply w k a = Fail e" "isQuotaError e" "a < 2"
    using isQuotaError_iff [of e] by blast+
  then show "attempts parse w u d k a le =
      after [Call k, Wait 10000] (attempts parse w u d k (Suc a) (Some e))"
    by (rule attempts_quota_retry)
next
  assume "oracle_reply w k 2 = Fail e \<and> quota_signal e"
  then have "oracle_reply w k 2 = Fail e" "isQuotaError e"
    using isQuotaError_iff [of e] by blast+
  then show "attempts parse w u d k 2 le = (NextKey (Some e), [Call k])"
    by (simp add: attempts_quota_last_gen try_body_Fail)
next
  assume "k < length keys \<and> attempts parse w u d k 0 le = (NextKey le', t)"
  then show "keys_loop parse w keys u d k le = after t (keys_loop parse w keys u d (Suc k) le')"
    by (simp add: keys_loop_next)
next
  assume h: "k < length keys \<and> all_quota w k (Suc k)"
  then obtain e where e: "oracle_reply w k 2 = Fail e"
    and att: "\<And>le. attempts parse w u d k 0 le =
                (NextKey (Some e), [Call k, Wait 10000, Call k, Wait 10000, Call k])"
    using all_quota_key [of w k "Suc k" k parse u d] by auto
  show "\<exists>e. oracle_reply w k 2 = Fail e \<and>
           keys_loop parse w keys u d k le =
           after [Call k, Wait 10000, Call k, Wait 10000, Call k]
             (keys_loop parse w keys u d (Suc k) (Some e))"
    using e keys_loop_next [OF _ att] h by blast
next
  assume h: "i < length keys \<and> guessContentType u = text_html \<and> all_quota w i (length keys)"
  then have "keys \<noteq> []" by auto
  then have f: "fetchPageLinks parse w keys i u r d = keys_loop parse w keys u d i None"
    using h by (simp add: fetch_html)
  from keys_loop_all_quota [of i keys w parse u d None] h obtain e where
    e: "oracle_reply w (length keys - 1) 2 = Fail e" "isQuotaError e"
      "keys_loop parse w keys u d i None =
         (Inl e, concat (map (\<lambda>k. [Call k, Wait 10000, Call k, Wait 10000, Call k]) [i..<length keys]))"
    by blast
  from e(2) have "quota_signal e" using isQuotaError_iff [of e] by blast
  then show "\<exists>e. oracle_reply w (length keys - 1) 2 = Fail e \<and> quota_signal e \<and>
           fetchPageLinks parse w keys i u r d =
           (Inl e, concat (map (\<lambda>k. [Call k, Wait 10000, Call k, Wait 10000, Call k])
                             [i..<length keys]))"
    using e f by auto
qed

lemma html_root: "guessContentType ''https://example.test/'' = text_html"
  by (simp add: guessContentType_def has_ext_def lower_def)

lemma quota_failures_all: "all_quota quota_failures 0 n"
  by (simp add: all_quota_def quota_failures_def err429_def err_code429_def err_exhausted_def
      err_message429_def err_message_quota_def Error_def)

text \<open>
  Two keys whose calls are answered with quota signals of every form (a status 429, a code
  429 and a status \<^verbatim>\<open>RESOURCE_EXHAUSTED\<close> for the first key; a message with 429, a status
  429 and a message with quota for the second): six calls, three per key, a wait of
  10000 ms after each signal on a first or second attempt, and the last signal is raised.
\<close>

theorem quota_cooldown_rotation_exhaustion_witness:
  "fetchPageLinks no_parse quota_failures [key_one, key_two] 0
      ''https://example.test/'' ''https://example.test/'' 0 =
   (Inl err_message_quota, [Call 0, Wait 10000, Call 0, Wait 10000, Call 0,
                            Call 1, Wait 10000, Call 1, Wait 10000, Call 1])
   \<and> isQuotaError err_code429 \<and> isQuotaError err_exhausted \<and> isQuotaError err_message429"
proof -
  have upt: "[0..<length [key_one, key_two]] = [0, 1]"
    by (simp add: upt_rec)
  have last: "oracle_reply quota_failures (length [key_one, key_two] - 1) 2 = Fail err_message_quota"
    by (simp add: quota_failures_def)
  note thm0 = quota_cooldown_rotation_exhaustion
      [where w = quota_failures and keys = "[key_one, key_two]" and i = 0
         and u = "''https://example.test/''" and parse = no_parse
         and r = "''https://example.test/''" and d = 0]
  have "\<exists>e. oracle_reply quota_failures (length [key_one, key_two] - 1) 2 = Fail e \<and>
          fetchPageLinks no_parse quota_failures [key_one, key_two] 0
            ''https://example.test/'' ''https://example.test/'' 0 =
          (Inl e, concat (map (\<lambda>k. [Call k, Wait 10000, Call k, Wait 10000, Call k])
                            [0..<length [key_one, key_two]]))"
    using thm0 html_root quota_failures_all [of "length [key_one, key_two]"] by blast
  then have run: "fetchPageLinks no_parse quota_failures [key_one, key_two] 0
      ''https://example.test/'' ''https://example.test/'' 0 =
   (Inl err_message_quota, [Call 0, Wait 10000, Call 0, Wait 10000, Call 0,
                            Call 1, Wait 10000, Call 1, Wait 10000, Call 1])"
    unfolding last upt by auto
  have "isQuotaError err_code429"
    using quota_cooldown_rotation_exhaustion [where e = err_code429, THEN conjunct1]
    by (simp add: err_code429_def)
  moreover have "isQuotaError err_exhausted"
    using quota_cooldown_rotation_exhaustion [where e = err_exhausted, THEN conjunct1]
    by (simp add: err_exhausted_def)
  moreover have "isQuotaError err_message429"
    using quota_cooldown_rotation_exhaustion [where e = err_message429, THEN conjunct1]
    by (simp add: err_message429_def Error_def)
  ultimately show ?thesis using run by simp
qed

text \<open>
  Claim C4. When an attempt of a key ends in an error that is no quota signal and it is
  the first or second attempt (\<open>a\<close> is 0 or 1), the loop waits 2000 ms times the number of
  the attempt and goes on with the next attempt of the same key. When the third attempt
  ends in such an error, the error is thrown. So when a key has failed twice and fails a
  third time with an error that is no quota signal, \<open>fetchPageLinks\<close> raises that error,
  and the trace ends with the third call of this key: no other key is tried. An attempt
  ends in an error when the oracle raises one, or when the reply has the wrong shape.
\<close>

theorem other_error_backoff_then_fatal:
  "(try_body parse w u d (oracle_reply w k a) = Inl e \<and> \<not> isQuotaError e \<and> a < 2 \<longrightarrow>
      attempts parse w u d k a le =
      after [Call k, Wait (2000 * (int a + 1))] (attempts parse w u d k (Suc a) (Some e)))
   \<and> (try_body parse w u d (oracle_reply w k 2) = Inl e \<and> \<not> isQuotaError e \<longrightarrow>
        attempts parse w u d k 2 le = (Thrown e, [Call k]))
   \<and> (k < length keys \<and>
        try_body parse w u d (oracle_reply w k 0) = Inl e0 \<and>
        try_body parse w u d (oracle_reply w k 1) = Inl e1 \<and>
        try_body parse w u d (oracle_reply w k 2) = Inl e \<and> \<not> isQuotaError e \<longrightarrow>
        keys_loop parse w keys u d k le =
        (Inl e, [Call k, Wait (if isQuotaError e0 then 10000 else 2000),
                 Call k, Wait (if isQuotaError e1 then 10000 else 4000), Call k])
        \<and> (guessContentType u = text_html \<longrightarrow>
             fetchPageLinks parse w keys k u r d =
             (Inl e, [Call k, Wait (if isQuotaError e0 then 10000 else 2000),
                      Call k, Wait (if isQuotaError e1 then 10000 else 4000), Call k])))"
proof (intro conjI impI)
  assume "try_body parse w u d (oracle_reply w k a) = Inl e \<and> \<not> isQuotaError e \<and> a < 2"
  then show "attempts parse w u d k a le =
      after [Call k, Wait (2000 * (int a + 1))] (attempts parse w u d k (Suc a) (Some e))"
    by (simp add: attempts_other_retry_gen)
next
  assume "try_body parse w u d (oracle_reply w k 2) = Inl e \<and> \<not> isQuotaError e"
  then show "attempts parse w u d k 2 le = (Thrown e, [Call k])"
    by (simp add: attempts_other_last_gen)
next
  assume h: "k < length keys \<and>
        try_body parse w u d (oracle_reply w k 0) = Inl e0 \<and>
        try_body parse w u d (oracle_reply w k 1) = Inl e1 \<and>
        try_body parse w u d (oracle_reply w k 2) = Inl e \<and> \<not> isQuotaError e"
  then show kl: "keys_loop parse w keys u d k le =
        (Inl e, [Call k, Wait (if isQuotaError e0 then 10000 else 2000),
                 Call k, Wait (if isQuotaError e1 then 10000 else 4000), Call k])"
    using attempts_third_fatal [of parse w u d k e0 e1 e le]
    by (intro keys_loop_thrown) simp_all
  assume html: "guessContentType u = text_html"
  from h have "keys \<noteq> []" by auto
  then have "fetchPageLinks parse w keys k u r d = keys_loop parse w keys u d k None"
    using html by (simp add: fetch_html)
  then show "fetchPageLinks parse w keys k u r d =
             (Inl e, [Call k, Wait (if isQuotaError e0 then 10000 else 2000),
                      Call k, Wait (if isQuotaError e1 then 10000 else 4000), Call k])"
    using h attempts_third_fatal [of parse w u d k e0 e1 e None]
    by (simp add: keys_loop_thrown)
qed

lemma not_quota500: "\<not> isQuotaError err500"
  by (simp add: isQuotaError_def err500_def)

text \<open>A server error on every call: three calls with the first key, waits of 2000 ms and
  4000 ms, and the second key is never used.\<close>

theorem other_error_backoff_then_fatal_witness:
  "fetchPageLinks no_parse (always_failing err500) [key_one, key_two] 0
      ''https://example.test/'' ''https://example.test/'' 0 =
   (Inl err500, [Call 0, Wait 2000, Call 0, Wait 4000, Call 0])"
  using other_error_backoff_then_fatal
      [where w = "always_failing err500" and keys = "[key_one, key_two]" and k = 0
         and u = "''https://example.test/''" and parse = no_parse and d = 0
         and r = "''https://example.test/''" and e = err500 and ?e0.0 = err500 and ?e1.0 = err500]
    html_root not_quota500
  by (simp add: always_failing_def try_body_Fail)

text \<open>
  Claim C10, as amended. With a pool that is not empty and a starting index at or past its
  end, \<open>fetchPageLinks\<close> calls nothing and returns no links; the index it reports is the
  last index of the pool when the page is an HTML page, and the starting index itself
  when the page is a resource (the check of line 29 comes first).
\<close>

theorem start_index_past_pool:
  "keys \<noteq> [] \<and> length keys \<le> i \<longrightarrow>
     fetchPageLinks parse w keys i u r d =
     (if guessContentType u = text_html then (Inr ([], length keys - 1), [])
      else (Inr ([], i), []))"
  by (auto simp: fetchPageLinks_def keys_loop.simps)

lemma png_logo: "guessContentType ''https://example.test/logo.png'' = image_png"
  by (simp add: guessContentType_def has_ext_def lower_def)

theorem start_index_past_pool_witness:
  "fetchPageLinks no_parse (always_failing err500) [key_one] 5
      ''https://example.test/'' ''https://example.test/'' 0 = (Inr ([], 0), [])"
  using start_index_past_pool
      [of "[key_one]" 5 no_parse "always_failing err500" "''https://example.test/''"
          "''https://example.test/''" 0]
    html_root
  by simp

text \<open>The claim as stated fails for a resource: with one key and starting index 5 the
  index reported for a PNG is 5, not 0.\<close>

theorem start_index_past_pool_resource_counterexample:
  "fetchPageLinks no_parse (always_failing err500) [key_one] 5
      ''https://example.test/logo.png'' ''https://example.test/'' 1 = (Inr ([], 5), [])
   \<and> fst (fetchPageLinks no_parse (always_failing err500) [key_one] 5
      ''https://example.test/logo.png'' ''https://example.test/'' 1)
       \<noteq> Inr ([], length [key_one] - 1)"
  by (simp add: fetchPageLinks_def png_logo)

text \<open>A reply that \<^verbatim>\<open>JSON.parse\<close> rejects ends the expansion with no children, under the
  key in use.\<close>

lemma unparseable_reply_is_childless:
  assumes "oracle_reply w k a = Reply (Some t)" "parse (cleanText t) = None" "a < 3"
  shows "attempts parse w u d k a le = (Returned [] k, [Call k])"
  using assms by (subst attempts.simps) (simp add: try_body_def)

lemma clean_wrapped: \<open>cleanText ''{"links": []}'' = ''{"links": []}''\<close>
  by code_simp

lemma try_wrapped:
  \<open>try_body parse_wrapped w u d (Reply (Some ''{"links": []}'')) = Inl TypeError_map\<close>
  by (simp add: try_body_def clean_wrapped parse_wrapped_def)

lemma not_quota_TypeError_map: "\<not> isQuotaError TypeError_map"
  by (simp add: isQuotaError_def TypeError_map_def Error_def)

text \<open>
  Claim C9 fails on the code for a reply that is JSON but no array. The oracle answers
  every call with the object \<^verbatim>\<open>{"links": []}\<close>: \<^verbatim>\<open>JSON.parse\<close> accepts it,
  \<^verbatim>\<open>rawLinks.map\<close> raises a \<^verbatim>\<open>TypeError\<close> inside the \<^verbatim>\<open>try\<close>, the handler treats it as any
  other error, and after three attempts \<open>fetchPageLinks\<close> raises it.
\<close>

theorem wrong_shape_reply_is_fatal:
  \<open>fetchPageLinks parse_wrapped (always_replying ''{"links": []}'') [key_one, key_two] 0
      ''https://example.test/'' ''https://example.test/'' 0 =
   (Inl TypeError_map, [Call 0, Wait 2000, Call 0, Wait 4000, Call 0])\<close>
proof -
  let ?w = \<open>always_replying ''{"links": []}''\<close>
  have tb: "\<And>a. try_body parse_wrapped ?w ''https://example.test/'' 0 (oracle_reply ?w 0 a)
              = Inl TypeError_map"
    by (simp add: always_replying_def try_wrapped)
  have "attempts parse_wrapped ?w ''https://example.test/'' 0 0 0 None
             = (Thrown TypeError_map, [Call 0, Wait 2000, Call 0, Wait 4000, Call 0])"
    using attempts_third_fatal [OF tb tb tb not_quota_TypeError_map, of None]
    by (simp add: not_quota_TypeError_map)
  then show ?thesis
    by (simp add: fetch_html html_root keys_loop_thrown)
qed

theorem wrong_shape_reply_is_fatal_witness:
  \<open>\<exists>e t. fetchPageLinks parse_wrapped (always_replying ''{"links": []}'')
            [key_one, key_two] 0 ''https://example.test/'' ''https://example.test/'' 0
          = (Inl e, t)\<close>
  using wrong_shape_reply_is_fatal by blast

section \<open>The children an expansion returns\<close>

lemma mk_link_ok: "mk_link w u d i link = Inr c \<Longrightarrow> child_ok d c"
  by (auto simp: mk_link_def child_ok_def split: sum.splits option.splits json.splits)

lemma map_links_ok: "map_links w u d i links = Inr cs \<Longrightarrow> \<forall>c\<in>set cs. child_ok d c"
proof (induction links arbitrary: i cs)
  case Nil
  then show ?case by simp
next
  case (Cons link links)
  then show ?case
    by (auto split: sum.splits dest: mk_link_ok)
qed

lemma try_body_ok: "try_body parse w u d r = Inr cs \<Longrightarrow> \<forall>c\<in>set cs. child_ok d c"
  by (auto simp: try_body_def split: response.splits option.splits if_splits json.splits
           dest: map_links_ok)

lemma attempts_ok:
  "attempts parse w u d k a le = (Returned cs k', t) \<Longrightarrow> \<forall>c\<in>set cs. child_ok d c"
proof (induction parse w u d k a le arbitrary: t rule: attempts.induct)
  case (1 parse w u d k a le)
  show ?case
  proof (cases "a < 3")
    case False
    with "1.prems" show ?thesis by (subst (asm) attempts.simps) simp
  next
    case True
    show ?thesis
    proof (cases "try_body parse w u d (oracle_reply w k a)")
      case (Inr links)
      with True "1.prems" have "cs = links" by (subst (asm) attempts.simps) simp
      with Inr show ?thesis using try_body_ok by blast
    next
      case (Inl e)
      show ?thesis
      proof (cases "isQuotaError e")
        case q: True
        show ?thesis
        proof (cases "a < 2")
          case a2: True
          from "1.prems" True Inl q a2
          obtain t' where "attempts parse w u d k (a + 1) (Some e) = (Returned cs k', t')"
            by (subst (asm) attempts.simps) (auto simp: after_def prod_eq_iff)
          then show ?thesis using "1.IH"(1) [OF True Inl q a2] by blast
        next
          case False
          with "1.prems" True Inl q show ?thesis by (subst (asm) attempts.simps) simp
        qed
      next
        case nq: False
        show ?thesis
        proof (cases "a = 2")
          case True
          with "1.prems" Inl nq show ?thesis by (subst (asm) attempts.simps) simp
        next
          case a2: False
          from "1.prems" True Inl nq a2
          obtain t' where "attempts parse w u d k (a + 1) (Some e) = (Returned cs k', t')"
            by (subst (asm) attempts.simps) (auto simp: after_def prod_eq_iff)
          then show ?thesis using "1.IH"(2) [OF True Inl nq a2] by blast
        qed
      qed
    qed
  qed
qed

lemma keys_loop_ok:
  "keys_loop parse w keys u d k le = (Inr (cs, k'), t) \<Longrightarrow> \<forall>c\<in>set cs. child_ok d c"
proof (induction parse w keys u d k le arbitrary: t rule: keys_loop.induct)
  case (1 parse w keys u d k le)
  show ?case
  proof (cases "k < length keys")
    case False
    with "1.prems" show ?thesis
      by (subst (asm) keys_loop.simps) (auto split: option.splits)
  next
    case True
    obtain r tr where att: "attempts parse w u d k 0 le = (r, tr)" by (cases "attempts parse w u d k 0 le")
    show ?thesis
    proof (cases r)
      case (Returned links kk)
      with "1.prems" True att have "cs = links" by (subst (asm) keys_loop.simps) simp
      with att Returned show ?thesis using attempts_ok by blast
    next
      case (Thrown e)
      with "1.prems" True att show ?thesis by (subst (asm) keys_loop.simps) simp
    next
      case (NextKey le')
      from "1.prems" True att NextKey
      obtain t' where "keys_loop parse w keys u d (k + 1) le' = (Inr (cs, k'), t')"
        by (subst (asm) keys_loop.simps) (auto simp: after_def prod_eq_iff)
      then show ?thesis using "1.IH" [OF True att [symmetric] NextKey] by blast
    qed
  qed
qed

lemma fetch_ok:
  "fst (fetchPageLinks parse w keys i u r d) = Inr (cs, k') \<Longrightarrow> \<forall>c\<in>set cs. child_ok d c"
  by (cases "keys_loop parse w keys u d i None")
     (auto simp: fetchPageLinks_def split: if_splits dest: keys_loop_ok)

section \<open>Invariants of a crawl run\<close>

lemma merge_children_shape:
  "merge_children cs s = (s', e) \<Longrightarrow>
   \<exists>new. nodes s' = nodes s @ new \<and> queue s' = queue s @ filter enqueued new \<and>
         visited s' = visited s \<union> set (map url new) \<and> set new \<subseteq> set cs \<and>
         distinct (map url new) \<and> set (map url new) \<inter> visited s = {} \<and>
         isRunning s' = isRunning s \<and> currentKeyIndex s' = currentKeyIndex s \<and>
         apiKeys s' = apiKeys s \<and> crawl_status s' = crawl_status s \<and>
         stats s' = stats s \<and> reports s' = reports s \<and> task s' = task s"
proof (induction cs arbitrary: s)
  case Nil
  then show ?case by auto
next
  case (Cons child cs)
  show ?case
  proof (cases "url child \<in> visited s")
    case True
    with Cons.prems have "merge_children cs s = (s', e)" by simp
    from Cons.IH [OF this] show ?thesis by auto
  next
    case False
    define s1 where "s1 = s\<lparr>visited := insert (url child) (visited s), nodes := nodes s @ [child]\<rparr>"
    define s2 where "s2 = (if enqueued child then s1\<lparr>queue := queue s1 @ [child]\<rparr> else s1)"
    have s2: "nodes s2 = nodes s @ [child]" "visited s2 = insert (url child) (visited s)"
      "queue s2 = queue s @ filter enqueued [child]"
      "isRunning s2 = isRunning s" "currentKeyIndex s2 = currentKeyIndex s"
      "apiKeys s2 = apiKeys s" "crawl_status s2 = crawl_status s"
      "stats s2 = stats s" "reports s2 = reports s" "task s2 = task s"
      by (simp_all add: s1_def s2_def)
    show ?thesis
    proof (cases "\<exists>st. status child = JStr st")
      case str: True
      with Cons.prems False have "merge_children cs s2 = (s', e)"
        by (auto simp: s1_def s2_def enqueued_def Let_def)
      from Cons.IH [OF this] obtain new where new:
        "nodes s' = nodes s2 @ new" "queue s' = queue s2 @ filter enqueued new"
        "visited s' = visited s2 \<union> set (map url new)" "set new \<subseteq> set cs"
        "distinct (map url new)" "set (map url new) \<inter> visited s2 = {}"
        "isRunning s' = isRunning s2" "currentKeyIndex s' = currentKeyIndex s2"
        "apiKeys s' = apiKeys s2" "crawl_status s' = crawl_status s2"
        "stats s' = stats s2" "reports s' = reports s2" "task s' = task s2"
        by blast
      have "nodes s' = nodes s @ (child # new)" using new s2 by simp
      moreover have "queue s' = queue s @ filter enqueued (child # new)" using new s2 by simp
      moreover have "visited s' = visited s \<union> set (map url (child # new))" using new s2 by auto
      moreover have "set (child # new) \<subseteq> set (child # cs)" using new by auto
      moreover have "distinct (map url (child # new))" using new s2 by auto
      moreover have "set (map url (child # new)) \<inter> visited s = {}" using new s2 False by auto
      ultimately show ?thesis using new s2 by (intro exI [of _ "child # new"]) simp
    next
      case nostr: False
      with Cons.prems False have "s' = s2"
        by (auto simp: s1_def s2_def enqueued_def Let_def split: json.splits)
      then show ?thesis using s2 False by (intro exI [of _ "[child]"]) simp
    qed
  qed
qed

lemma replaceFirst_split:
  "distinct (map node_id xs) \<Longrightarrow> cn \<in> set xs \<Longrightarrow> node_id u = node_id cn \<Longrightarrow>
   \<exists>ys zs. xs = ys @ cn # zs \<and> replaceFirst u xs = ys @ u # zs"
proof (induction xs)
  case Nil
  then show ?case by simp
next
  case (Cons n ns)
  show ?case
  proof (cases "n = cn")
    case True
    then have "replaceFirst u (n # ns) = u # ns" using Cons.prems by simp
    with True show ?thesis by (intro exI [of _ "[]"] exI [of _ ns]) simp
  next
    case False
    then have in_ns: "cn \<in> set ns" using Cons.prems by simp
    then have "node_id n \<noteq> node_id cn" using Cons.prems(1) by (auto simp: image_iff)
    then have rf: "replaceFirst u (n # ns) = n # replaceFirst u ns" using Cons.prems(3) by simp
    from Cons.IH in_ns Cons.prems obtain ys zs
      where "ns = ys @ cn # zs" "replaceFirst u ns = ys @ u # zs" by auto
    then show ?thesis using rf by (intro exI [of _ "n # ys"] exI [of _ zs]) simp
  qed
qed

lemma wf_ids: "wf_lists xs q vis \<Longrightarrow> distinct (map node_id xs)"
  by (simp add: wf_lists_def cong: map_cong)

lemma wf_inj: "wf_lists xs q vis \<Longrightarrow> a \<in> set xs \<Longrightarrow> b \<in> set xs \<Longrightarrow> url a = url b \<Longrightarrow> a = b"
  unfolding wf_lists_def by (meson distinct_map inj_onD)

lemma wf_replace:
  assumes wf: "wf_lists xs q vis" and cn: "cn \<in> set xs" "cn \<notin> set q"
    and u: "node_id u = node_id cn" "url u = url cn"
  shows "wf_lists (replaceFirst u xs) q vis \<and> u \<in> set (replaceFirst u xs) \<and> u \<notin> set q"
proof -
  from replaceFirst_split [OF wf_ids [OF wf] cn(1) u(1)] obtain ys zs
    where xs: "xs = ys @ cn # zs" and rf: "replaceFirst u xs = ys @ u # zs" by blast
  have urls: "map url (replaceFirst u xs) = map url xs" using xs rf u by simp
  have ids: "\<forall>n\<in>set (replaceFirst u xs). node_id n = url n"
    using wf xs rf u unfolding wf_lists_def by auto
  have sub: "set q \<subseteq> set (replaceFirst u xs)"
    using wf cn(2) xs rf unfolding wf_lists_def by auto
  have notin: "u \<notin> set q"
  proof
    assume uq: "u \<in> set q"
    then have "u \<in> set xs" using wf unfolding wf_lists_def by auto
    then have "u = cn" using wf_inj [OF wf _ cn(1) u(2)] by simp
    with uq cn(2) show False by simp
  qed
  show ?thesis
    using wf urls ids sub notin rf unfolding wf_lists_def by simp
qed

lemma wf_merge:
  assumes wf: "wf_lists (nodes s) (queue s) (visited s)"
    and ok: "\<forall>c\<in>set cs. child_ok d c"
    and m: "merge_children cs s = (s', e)"
  shows "wf_lists (nodes s') (queue s') (visited s') \<and> set (nodes s) \<subseteq> set (nodes s') \<and>
         (\<forall>n\<in>set (queue s'). n \<in> set (queue s) \<or> url n \<notin> visited s) \<and> task s' = task s"
proof -
  from merge_children_shape [OF m] obtain new where new:
    "nodes s' = nodes s @ new" "queue s' = queue s @ filter enqueued new"
    "visited s' = visited s \<union> set (map url new)" "set new \<subseteq> set cs"
    "distinct (map url new)" "set (map url new) \<inter> visited s = {}" "task s' = task s"
    by blast
  have vis: "visited s = set (map url (nodes s))" using wf by (simp add: wf_lists_def)
  have newok: "\<forall>c\<in>set new. node_id c = url c \<and> \<not> scanned c"
    using ok new(4) by (auto simp: child_ok_def)
  have dnew: "distinct new" using new(5) by (simp add: distinct_map)
  have fresh: "\<forall>c\<in>set new. url c \<notin> visited s" using new(6) by auto
  have disj: "set (queue s) \<inter> set new = {}"
  proof -
    have "\<forall>n\<in>set (queue s). url n \<in> visited s" using wf vis unfolding wf_lists_def by auto
    with fresh show ?thesis by auto
  qed
  have "distinct (map url (nodes s @ new))"
    using wf new(5,6) vis unfolding wf_lists_def by auto
  moreover have "distinct (queue s @ filter enqueued new)"
    using wf dnew disj unfolding wf_lists_def by auto
  ultimately have "wf_lists (nodes s') (queue s') (visited s')"
    using wf new newok vis unfolding wf_lists_def by auto
  moreover have "\<forall>n\<in>set (queue s'). n \<in> set (queue s) \<or> url n \<notin> visited s"
    using new(2) fresh by auto
  ultimately show ?thesis using new by auto
qed

lemma consistent_iff:
  "consistent s \<longleftrightarrow>
     wf_lists (nodes s) (queue s) (visited s) \<and>
     (\<forall>cn. task s = Awaiting cn \<longrightarrow> cn \<in> set (nodes s) \<and> cn \<notin> set (queue s) \<and> \<not> scanned cn)"
  by (auto simp: consistent_def split: task.splits)

lemma consistent_start: "consistent s \<Longrightarrow> consistent (startRecursiveCrawl cfg now s)"
  by (simp add: startRecursiveCrawl_def consistent_iff wf_lists_def rootNode_def)

lemma consistent_idle: "consistent (idle keys k0)"
  by (simp add: idle_def consistent_iff wf_lists_def)

lemma consistent_stop: "consistent s \<Longrightarrow> consistent (stopCrawl s)"
  by (simp add: stopCrawl_def consistent_iff)

lemma finishCrawl_fields:
  "nodes (finishCrawl s) = nodes s" "queue (finishCrawl s) = queue s"
  "visited (finishCrawl s) = visited s" "task (finishCrawl s) = task s"
  "stats (finishCrawl s) = stats s"
  by (simp_all add: finishCrawl_def Let_def)

lemma consistent_processQueue:
  assumes "consistent s"
  shows "consistent (processQueue cfg s)"
proof (cases "\<not> isRunning s \<or> queue s = [] \<or> int (length (nodes s)) \<ge> maxPages cfg")
  case True
  then have "processQueue cfg s = (finishCrawl s)\<lparr>task := NoTask\<rparr>"
    by (simp add: processQueue_def)
  then show ?thesis using assms by (simp add: consistent_iff finishCrawl_fields)
next
  case False
  then obtain cur rest where q: "queue s = cur # rest" by (cases "queue s") auto
  have wf: "wf_lists (nodes s) (cur # rest) (visited s)" using assms q by (simp add: consistent_iff)
  then have wf': "wf_lists (nodes s) rest (visited s)" by (simp add: wf_lists_def)
  have cur: "cur \<in> set (nodes s)" "cur \<notin> set rest" "\<not> scanned cur"
    using wf by (auto simp: wf_lists_def)
  show ?thesis
  proof (cases "depth cur \<ge> maxDepth cfg")
    case True
    with False q have "nodes (processQueue cfg s) = nodes s" "queue (processQueue cfg s) = rest"
      "visited (processQueue cfg s) = visited s" "task (processQueue cfg s) = Scheduled"
      by (simp_all add: processQueue_def Let_def)
    then show ?thesis using wf' by (simp add: consistent_iff)
  next
    case deep: False
    let ?u = "cur\<lparr>status := JStr ''scanning''\<rparr>"
    from False q deep have
      "nodes (processQueue cfg s) = replaceFirst ?u (nodes s)" "queue (processQueue cfg s) = rest"
      "visited (processQueue cfg s) = visited s" "task (processQueue cfg s) = Awaiting ?u"
      by (simp_all add: processQueue_def Let_def updateNodeState_def)
    moreover have "wf_lists (replaceFirst ?u (nodes s)) rest (visited s) \<and>
        ?u \<in> set (replaceFirst ?u (nodes s)) \<and> ?u \<notin> set rest"
      using wf' cur by (intro wf_replace) simp_all
    ultimately show ?thesis using cur by (simp add: consistent_iff)
  qed
qed

lemma wf_updateNodeState:
  assumes "wf_lists (nodes s) (queue s) (visited s)" "cn \<in> set (nodes s)" "cn \<notin> set (queue s)"
    and "node_id u = node_id cn" "url u = url cn"
  shows "wf_lists (nodes (updateNodeState u s)) (queue (updateNodeState u s))
           (visited (updateNodeState u s))"
  using wf_replace [OF assms] by (simp add: updateNodeState_def)

lemma consistent_resume:
  assumes c: "consistent s" and t: "task s = Awaiting cn"
  shows "consistent (processQueue_resume cfg l w cn s)"
proof -
  have wf: "wf_lists (nodes s) (queue s) (visited s)" and cn: "cn \<in> set (nodes s)" "cn \<notin> set (queue s)"
    using c t by (simp_all add: consistent_iff)
  let ?f = "fst (fetchPageLinks (JSON_parse l) w (apiKeys s) (currentKeyIndex s)
                       (url cn) (CrawlConfig.url cfg) (depth cn))"
  have goal: "wf_lists (nodes s') (queue s') (visited s') \<Longrightarrow> consistent (s'\<lparr>task := Scheduled\<rparr>)" for s'
    by (simp add: consistent_iff)
  show ?thesis
  proof (cases ?f)
    case (Inl e)
    then have "processQueue_resume cfg l w cn s =
        (updateNodeState (cn\<lparr>status := JStr (failed_status l e)\<rparr>) s)\<lparr>task := Scheduled\<rparr>"
      by (simp add: processQueue_resume_def)
    moreover have "wf_lists (nodes (updateNodeState (cn\<lparr>status := JStr (failed_status l e)\<rparr>) s))
        (queue (updateNodeState (cn\<lparr>status := JStr (failed_status l e)\<rparr>) s))
        (visited (updateNodeState (cn\<lparr>status := JStr (failed_status l e)\<rparr>) s))"
      using wf cn by (intro wf_updateNodeState [where cn = cn]) simp_all
    ultimately show ?thesis using goal by simp
  next
    case (Inr r)
    obtain cs k where r: "r = (cs, k)" by (cases r)
    define s1 where "s1 = (if k \<noteq> currentKeyIndex s then s\<lparr>currentKeyIndex := k\<rparr> else s)"
    have s1: "nodes s1 = nodes s" "queue s1 = queue s" "visited s1 = visited s"
      by (simp_all add: s1_def)
    obtain s2 eo where m: "merge_children cs s1 = (s2, eo)" by (cases "merge_children cs s1")
    have ok: "\<forall>c\<in>set cs. child_ok (depth cn) c"
      using Inr r fetch_ok by blast
    from wf_merge [OF _ ok m] wf s1
    have wf2: "wf_lists (nodes s2) (queue s2) (visited s2)" and sub: "set (nodes s) \<subseteq> set (nodes s2)"
      and qs: "\<forall>n\<in>set (queue s2). n \<in> set (queue s) \<or> url n \<notin> visited s"
      by simp_all
    have cn2: "cn \<in> set (nodes s2)" using cn sub by auto
    have "url cn \<in> visited s" using wf cn by (auto simp: wf_lists_def)
    then have cnq: "cn \<notin> set (queue s2)" using qs cn by auto
    have upd: "wf_lists (nodes (updateNodeState u s2)) (queue (updateNodeState u s2))
           (visited (updateNodeState u s2))" if "node_id u = node_id cn" "url u = url cn" for u
      using wf_updateNodeState [OF wf2 cn2 cnq that] .
    show ?thesis
    proof (cases eo)
      case (Some e)
      then have "processQueue_resume cfg l w cn s =
          (updateNodeState (cn\<lparr>status := JStr (failed_status l e)\<rparr>) s2)\<lparr>task := Scheduled\<rparr>"
        using Inr r m by (simp add: processQueue_resume_def s1_def)
      then show ?thesis using goal upd by simp
    next
      case None
      let ?done = "cn\<lparr>status := JStr ''200'', scanned := True\<rparr>"
      let ?s3 = "updateNodeState ?done s2"
      have "processQueue_resume cfg l w cn s =
          (?s3\<lparr>stats := Option.bind (stats ?s3) (update_stats ?s3 ?done cs)\<rparr>)\<lparr>task := Scheduled\<rparr>"
        using None Inr r m by (simp add: processQueue_resume_def s1_def Let_def)
      moreover have "wf_lists (nodes ?s3) (queue ?s3) (visited ?s3)" using upd by simp
      ultimately show ?thesis by (simp add: consistent_iff)
    qed
  qed
qed

lemma consistent_fire: "consistent s \<Longrightarrow> consistent (fire cfg l s ev)"
  by (cases ev) (auto simp: fire_def consistent_processQueue consistent_resume consistent_stop
                      split: task.splits)

lemma consistent_foldl: "consistent s \<Longrightarrow> consistent (foldl (fire cfg l) s evs)"
  by (induction evs arbitrary: s) (simp_all add: consistent_fire)

lemma consistent_crawl: "consistent (crawl cfg l now (idle keys k0) evs)"
  unfolding crawl_def by (intro consistent_foldl consistent_start consistent_idle)

section \<open>Breadth-first order\<close>

lemma updateNodeState_fields:
  "queue (updateNodeState u s) = queue s" "visited (updateNodeState u s) = visited s"
  "task (updateNodeState u s) = task s" "stats (updateNodeState u s) = stats s"
  "nodes (updateNodeState u s) = replaceFirst u (nodes s)"
  by (simp_all add: updateNodeState_def)

lemma resume_queue:
  "\<exists>new. queue (processQueue_resume cfg l w cn s) = queue s @ new \<and>
         (\<forall>n\<in>set new. child_ok (depth cn) n \<and> enqueued n) \<and>
         task (processQueue_resume cfg l w cn s) = Scheduled"
proof -
  let ?f = "fst (fetchPageLinks (JSON_parse l) w (apiKeys s) (currentKeyIndex s)
                       (url cn) (CrawlConfig.url cfg) (depth cn))"
  show ?thesis
  proof (cases ?f)
    case (Inl e)
    then show ?thesis
      by (intro exI [of _ "[]"]) (simp add: processQueue_resume_def updateNodeState_fields)
  next
    case (Inr r)
    obtain cs k where r: "r = (cs, k)" by (cases r)
    define s1 where "s1 = (if k \<noteq> currentKeyIndex s then s\<lparr>currentKeyIndex := k\<rparr> else s)"
    have s1: "queue s1 = queue s" by (simp add: s1_def)
    obtain s2 eo where m: "merge_children cs s1 = (s2, eo)" by (cases "merge_children cs s1")
    have ok: "\<forall>c\<in>set cs. child_ok (depth cn) c" using Inr r fetch_ok by blast
    from merge_children_shape [OF m] obtain new where
      new: "queue s2 = queue s1 @ filter enqueued new" "set new \<subseteq> set cs" by blast
    have q: "queue (processQueue_resume cfg l w cn s) = queue s2"
      and t: "task (processQueue_resume cfg l w cn s) = Scheduled"
      using Inr r m
      by (cases eo; simp add: processQueue_resume_def s1_def Let_def updateNodeState_fields)+
    show ?thesis
      using q t new s1 ok by (intro exI [of _ "filter enqueued new"]) auto
  qed
qed

lemma sorted_map_const: "\<forall>n\<in>set xs. f n = (c::int) \<Longrightarrow> sorted (map f xs)"
  by (induction xs) auto

lemma plus_one_ge: "d \<le> plus_one d"
  by (simp add: plus_one_def)

lemma plus_one_mono: "d \<le> d' \<Longrightarrow> plus_one d \<le> plus_one d'"
  by (simp add: plus_one_def)

lemma plus_one_exact: "d < 2 ^ 53 \<Longrightarrow> plus_one d = d + 1"
  by (simp add: plus_one_def)

text \<open>The node that \<open>shifted\<close> records is the one that \<^verbatim>\<open>processQueue\<close> removes from the
  front of the queue, and the one whose expansion it then starts.\<close>

lemma shifted_is_dequeued:
  assumes "task s = Scheduled"
  shows "(case shifted cfg s Invoke of
            [] \<Rightarrow> queue (processQueue cfg s) = queue s \<and> task (processQueue cfg s) = NoTask
          | n # ns \<Rightarrow> ns = [] \<and> queue s = n # queue (processQueue cfg s) \<and>
              task (processQueue cfg s) =
                (if maxDepth cfg \<le> depth n then Scheduled
                 else Awaiting (n\<lparr>status := JStr ''scanning''\<rparr>)))"
proof (cases "\<not> isRunning s \<or> queue s = [] \<or> int (length (nodes s)) \<ge> maxPages cfg")
  case True
  then have "shifted cfg s Invoke = []" "processQueue cfg s = (finishCrawl s)\<lparr>task := NoTask\<rparr>"
    by (auto simp: shifted_def processQueue_def)
  then show ?thesis by (simp add: finishCrawl_fields)
next
  case False
  then obtain cur rest where q: "queue s = cur # rest" by (cases "queue s") auto
  then have "shifted cfg s Invoke = [cur]" using False assms by (auto simp: shifted_def)
  then show ?thesis using False q
    by (auto simp: processQueue_def Let_def updateNodeState_fields)
qed

lemma bfs_fire:
  assumes "bfs_level lo s"
  shows "\<exists>lo'. lo \<le> lo' \<and> bfs_level lo' (fire cfg l s ev) \<and>
           (\<forall>n\<in>set (shifted cfg s ev). lo \<le> depth n \<and> depth n \<le> lo')"
proof (cases ev)
  case Stop
  then show ?thesis using assms
    by (intro exI [of _ lo]) (simp add: fire_def shifted_def stopCrawl_def bfs_level_def)
next
  case (Fetched w)
  show ?thesis
  proof (cases "\<exists>cn. task s = Awaiting cn")
    case False
    then have "fire cfg l s ev = s" using Fetched by (auto simp: fire_def split: task.splits)
    then show ?thesis using assms Fetched by (intro exI [of _ lo]) (simp add: shifted_def)
  next
    case True
    then obtain cn where cn: "task s = Awaiting cn" by blast
    then have f: "fire cfg l s ev = processQueue_resume cfg l w cn s"
      using Fetched by (simp add: fire_def)
    from resume_queue [of cfg l w cn s] obtain new where
      new: "queue (processQueue_resume cfg l w cn s) = queue s @ new"
        "\<forall>n\<in>set new. child_ok (depth cn) n"
        "task (processQueue_resume cfg l w cn s) = Scheduled" by blast
    have d: "depth cn = lo" using assms cn by (simp add: bfs_level_def)
    have nd: "\<forall>n\<in>set new. depth n = plus_one lo" using new(2) d by (simp add: child_ok_def)
    have "sorted (map depth new)" using nd by (rule sorted_map_const)
    then have "sorted (map depth (queue s @ new))"
      using assms nd by (auto simp: bfs_level_def sorted_append)
    then have "bfs_level lo (processQueue_resume cfg l w cn s)"
      using assms new nd plus_one_ge [of lo] by (auto simp: bfs_level_def)
    then show ?thesis using f Fetched by (intro exI [of _ lo]) (simp add: shifted_def)
  qed
next
  case Invoke
  show ?thesis
  proof (cases "task s = Scheduled")
    case False
    then show ?thesis using assms Invoke
      by (intro exI [of _ lo]) (simp add: fire_def shifted_def)
  next
    case sch: True
    show ?thesis
    proof (cases "\<not> isRunning s \<or> queue s = [] \<or> int (length (nodes s)) \<ge> maxPages cfg")
      case True
      then have "fire cfg l s ev = (finishCrawl s)\<lparr>task := NoTask\<rparr>" "shifted cfg s ev = []"
        using Invoke sch by (auto simp: fire_def processQueue_def shifted_def)
      then show ?thesis using assms
        by (intro exI [of _ lo]) (simp add: bfs_level_def finishCrawl_fields)
    next
      case False
      then obtain cur rest where q: "queue s = cur # rest" by (cases "queue s") auto
      have sh: "shifted cfg s ev = [cur]" using False Invoke sch q by (auto simp: shifted_def)
      have lo: "lo \<le> depth cur" "depth cur \<le> plus_one lo" "sorted (map depth rest)"
        "\<forall>n\<in>set rest. depth cur \<le> depth n \<and> depth n \<le> plus_one lo"
        using assms q by (auto simp: bfs_level_def)
      have "plus_one lo \<le> plus_one (depth cur)" using lo(1) by (rule plus_one_mono)
      then have cur: "lo \<le> depth cur" "sorted (map depth rest)"
        "\<forall>n\<in>set rest. depth cur \<le> depth n \<and> depth n \<le> plus_one (depth cur)"
        using lo by auto
      have qt: "queue (fire cfg l s ev) = rest \<and>
                (task (fire cfg l s ev) = Scheduled \<or>
                 task (fire cfg l s ev) = Awaiting (cur\<lparr>status := JStr ''scanning''\<rparr>))"
        using False Invoke sch q
        by (auto simp: fire_def processQueue_def Let_def updateNodeState_fields)
      have "bfs_level (depth cur) (fire cfg l s ev)"
        using qt cur by (auto simp: bfs_level_def)
      then show ?thesis using sh cur by (intro exI [of _ "depth cur"]) simp
    qed
  qed
qed

lemma bfs_order:
  "bfs_level lo s \<Longrightarrow>
   sorted (map depth (dequeue_order cfg l s evs)) \<and>
   (\<forall>n\<in>set (dequeue_order cfg l s evs). lo \<le> depth n) \<and>
   (\<exists>lo'. bfs_level lo' (foldl (fire cfg l) s evs))"
proof (induction evs arbitrary: s lo)
  case Nil
  then show ?case by auto
next
  case (Cons ev evs)
  from bfs_fire [OF Cons.prems, of cfg l ev] obtain lo' where
    lo': "lo \<le> lo'" "bfs_level lo' (fire cfg l s ev)"
      "\<forall>n\<in>set (shifted cfg s ev). lo \<le> depth n \<and> depth n \<le> lo'" by blast
  from Cons.IH [OF lo'(2)] have ih:
    "sorted (map depth (dequeue_order cfg l (fire cfg l s ev) evs))"
    "\<forall>n\<in>set (dequeue_order cfg l (fire cfg l s ev) evs). lo' \<le> depth n"
    "\<exists>lo''. bfs_level lo'' (foldl (fire cfg l) (fire cfg l s ev) evs)" by auto
  have len: "length (shifted cfg s ev) \<le> 1" by (auto simp: shifted_def split: event.splits)
  then have "sorted (map depth (shifted cfg s ev))"
    by (cases "shifted cfg s ev") (auto simp: Suc_le_eq)
  then have "sorted (map depth (shifted cfg s ev @ dequeue_order cfg l (fire cfg l s ev) evs))"
    using ih(1,2) lo'(3) by (fastforce simp: sorted_append)
  then show ?case using ih lo' by fastforce
qed

lemma bfs_start: "bfs_level 0 (startRecursiveCrawl cfg now (idle keys k0))"
  by (simp add: bfs_level_def startRecursiveCrawl_def idle_def rootNode_def plus_one_def)

text \<open>
  In a run with one chain of \<^verbatim>\<open>processQueue\<close> invocations the nodes that \<^verbatim>\<open>shift\<close> hands out
  come in non-decreasing depth, and the queue is sorted by depth in every state.
\<close>

lemma breadth_first_single_chain:
  "sorted (map depth (dequeue_order cfg l (startRecursiveCrawl cfg now (idle keys k0)) (Invoke # evs))) \<and>
   sorted (map depth (queue (crawl cfg l now (idle keys k0) evs)))"
proof -
  from bfs_order [OF bfs_start [of cfg now keys k0], of cfg l "Invoke # evs"]
  obtain lo where
    "sorted (map depth (dequeue_order cfg l (startRecursiveCrawl cfg now (idle keys k0)) (Invoke # evs)))"
    "bfs_level lo (foldl (fire cfg l) (startRecursiveCrawl cfg now (idle keys k0)) (Invoke # evs))"
    by blast
  then show ?thesis by (simp add: crawl_def bfs_level_def)
qed

text \<open>In the example the seed (depth 0) is handed out before the page it links to
  (depth 1).\<close>

lemma example_dequeue:
  "map url (dequeue_order example_config example_lib
      (startRecursiveCrawl example_config 0 (idle [key_one] 0))
      [Invoke, Fetched (always_replying example_reply), Invoke]) =
   [''https://example.test/'', ''https://example.test/a'']"
  by code_simp

text \<open>Every child that \<open>fetchPageLinks\<close> returns for a page at depth \<open>d\<close> below \<open>2 ^ 53\<close>
  has depth \<open>d + 1\<close>.\<close>

lemma children_one_deeper:
  assumes "fst (fetchPageLinks parse w ks i u r d) = Inr (cs, k)" "c \<in> set cs" "d < 2 ^ 53"
  shows "depth c = d + 1"
  using fetch_ok [OF assms(1)] assms(2,3) by (simp add: child_ok_def plus_one_def)

section \<open>Resources are leaves\<close>

lemma processQueue_queue: "set (queue (processQueue cfg s)) \<subseteq> set (queue s)"
  by (auto simp: processQueue_def Let_def finishCrawl_fields updateNodeState_fields
           split: list.splits)

lemma html_fire: "html_frontier cfg s \<Longrightarrow> html_frontier cfg (fire cfg l s ev)"
proof (cases ev)
  case Invoke
  assume "html_frontier cfg s"
  then show ?thesis using Invoke processQueue_queue [of cfg s]
    by (auto simp: fire_def html_frontier_def)
next
  case (Fetched w)
  assume h: "html_frontier cfg s"
  show ?thesis
  proof (cases "task s")
    case (Awaiting cn)
    from resume_queue [of cfg l w cn s] obtain new where
      "queue (processQueue_resume cfg l w cn s) = queue s @ new"
      "\<forall>n\<in>set new. child_ok (depth cn) n \<and> enqueued n" by blast
    then show ?thesis using h Fetched Awaiting
      by (auto simp: fire_def html_frontier_def child_ok_def enqueued_def)
  qed (use h Fetched in \<open>simp_all add: fire_def\<close>)
next
  case Stop
  assume "html_frontier cfg s"
  then show ?thesis using Stop by (simp add: fire_def html_frontier_def stopCrawl_def)
qed

lemma html_foldl: "html_frontier cfg s \<Longrightarrow> html_frontier cfg (foldl (fire cfg l) s evs)"
  by (induction evs arbitrary: s) (simp_all add: html_fire)

lemma html_start: "html_frontier cfg (startRecursiveCrawl cfg now (idle keys k0))"
  by (simp add: html_frontier_def startRecursiveCrawl_def idle_def)

lemma html_crawl: "html_frontier cfg (crawl cfg l now (idle keys k0) evs)"
  unfolding crawl_def by (intro html_foldl html_start)

section \<open>Statistics\<close>

lemma stats_replace_unscanned:
  assumes wf: "wf_lists xs q vis" and cn: "cn \<in> set xs" "\<not> scanned cn"
    and u: "node_id u = node_id cn" "\<not> scanned u"
  shows "filter scanned (replaceFirst u xs) = filter scanned xs"
proof -
  from replaceFirst_split [OF wf_ids [OF wf] cn(1) u(1)] obtain ys zs
    where "xs = ys @ cn # zs" "replaceFirst u xs = ys @ u # zs" by blast
  then show ?thesis using cn(2) u(2) by simp
qed

lemma stats_replace_scanned:
  assumes wf: "wf_lists xs q vis" and cn: "cn \<in> set xs" "\<not> scanned cn"
    and u: "node_id u = node_id cn" "scanned u"
  shows "length (filter scanned (replaceFirst u xs)) = Suc (length (filter scanned xs)) \<and>
         set (map depth (filter scanned (replaceFirst u xs))) =
           insert (depth u) (set (map depth (filter scanned xs)))"
proof -
  from replaceFirst_split [OF wf_ids [OF wf] cn(1) u(1)] obtain ys zs
    where "xs = ys @ cn # zs" "replaceFirst u xs = ys @ u # zs" by blast
  then show ?thesis using cn(2) u(2) by auto
qed

lemma stats_processQueue:
  assumes c: "consistent s" and a: "stats_agree s"
  shows "stats_agree (processQueue cfg s)"
proof (cases "\<not> isRunning s \<or> queue s = [] \<or> int (length (nodes s)) \<ge> maxPages cfg")
  case True
  then have "processQueue cfg s = (finishCrawl s)\<lparr>task := NoTask\<rparr>"
    by (simp add: processQueue_def)
  then show ?thesis using a by (simp add: stats_agree_def finishCrawl_fields)
next
  case False
  then obtain cur rest where q: "queue s = cur # rest" by (cases "queue s") auto
  have wf: "wf_lists (nodes s) (cur # rest) (visited s)" using c q by (simp add: consistent_iff)
  have cur: "cur \<in> set (nodes s)" "\<not> scanned cur"
    using wf by (auto simp: wf_lists_def)
  let ?u = "cur\<lparr>status := JStr ''scanning''\<rparr>"
  have same: "filter scanned (replaceFirst ?u (nodes s)) = filter scanned (nodes s)"
    using wf cur by (intro stats_replace_unscanned [where cn = cur]) simp_all
  have st: "stats (processQueue cfg s) =
        map_option (\<lambda>prev. prev\<lparr>currentUrl := url cur, queuedPages := int (length rest)\<rparr>) (stats s)"
    and nd: "nodes (processQueue cfg s) = nodes s \<or> nodes (processQueue cfg s) = replaceFirst ?u (nodes s)"
    using False q by (auto simp: processQueue_def Let_def updateNodeState_fields)
  have "filter scanned (nodes (processQueue cfg s)) = filter scanned (nodes s)"
    using nd same by auto
  then show ?thesis using a st by (auto simp: stats_agree_def)
qed

lemma resume_cases:
  fixes cfg l w cn s
  defines "f \<equiv> fst (fetchPageLinks (JSON_parse l) w (apiKeys s) (currentKeyIndex s)
                       (url cn) (CrawlConfig.url cfg) (depth cn))"
  obtains
    (failed) e where "f = Inl e"
      "processQueue_resume cfg l w cn s =
         (updateNodeState (cn\<lparr>status := JStr (failed_status l e)\<rparr>) s)\<lparr>task := Scheduled\<rparr>"
  | (thrown) cs k s2 e where "f = Inr (cs, k)"
      "merge_children cs (if k \<noteq> currentKeyIndex s then s\<lparr>currentKeyIndex := k\<rparr> else s) = (s2, Some e)"
      "processQueue_resume cfg l w cn s =
         (updateNodeState (cn\<lparr>status := JStr (failed_status l e)\<rparr>) s2)\<lparr>task := Scheduled\<rparr>"
  | (merged) cs k s2 where "f = Inr (cs, k)"
      "merge_children cs (if k \<noteq> currentKeyIndex s then s\<lparr>currentKeyIndex := k\<rparr> else s) = (s2, None)"
      "processQueue_resume cfg l w cn s =
         (updateNodeState (cn\<lparr>status := JStr ''200'', scanned := True\<rparr>) s2)
           \<lparr>stats := Option.bind (stats s2)
               (update_stats (updateNodeState (cn\<lparr>status := JStr ''200'', scanned := True\<rparr>) s2)
                  (cn\<lparr>status := JStr ''200'', scanned := True\<rparr>) cs),
            task := Scheduled\<rparr>"
proof (cases f)
  case (Inl e)
  then show ?thesis using failed [of e] by (simp add: processQueue_resume_def f_def)
next
  case (Inr r)
  obtain cs k where r: "r = (cs, k)" by (cases r)
  obtain s2 eo where m:
    "merge_children cs (if k \<noteq> currentKeyIndex s then s\<lparr>currentKeyIndex := k\<rparr> else s) = (s2, eo)"
    by (cases "merge_children cs (if k \<noteq> currentKeyIndex s then s\<lparr>currentKeyIndex := k\<rparr> else s)")
  show ?thesis
  proof (cases eo)
    case None
    then show ?thesis using merged [of cs k s2] Inr r m
      by (simp add: processQueue_resume_def f_def Let_def updateNodeState_fields)
  next
    case (Some e)
    then show ?thesis using thrown [of cs k s2 e] Inr r m
      by (simp add: processQueue_resume_def f_def Let_def)
  qed
qed



lemma Max_scanned_insert:
  "Max (insert 0 (insert (d::int) (set xs))) = max (Max (insert 0 (set xs))) d"
proof (cases "xs = []")
  case True
  then show ?thesis by (simp add: max.commute)
next
  case False
  then show ?thesis by (simp add: max.commute max.left_commute)
qed

lemma stats_resume:
  assumes c: "consistent s" and t: "task s = Awaiting cn" and a: "stats_agree s"
  shows "stats_agree (processQueue_resume cfg l w cn s)"
proof -
  have wf: "wf_lists (nodes s) (queue s) (visited s)" and cn: "cn \<in> set (nodes s)" "\<not> scanned cn"
    using c t by (simp_all add: consistent_iff)
  have merged_state: "wf_lists (nodes s2) (queue s2) (visited s2) \<and> cn \<in> set (nodes s2) \<and>
        filter scanned (nodes s2) = filter scanned (nodes s) \<and> stats s2 = stats s"
    if f: "fst (fetchPageLinks (JSON_parse l) w (apiKeys s) (currentKeyIndex s)
              (url cn) (CrawlConfig.url cfg) (depth cn)) = Inr (cs, k)"
      and m: "merge_children cs (if k \<noteq> currentKeyIndex s then s\<lparr>currentKeyIndex := k\<rparr> else s) = (s2, eo)"
    for cs k s2 eo
  proof -
    let ?s1 = "if k \<noteq> currentKeyIndex s then s\<lparr>currentKeyIndex := k\<rparr> else s"
    have s1: "nodes ?s1 = nodes s" "queue ?s1 = queue s" "visited ?s1 = visited s" "stats ?s1 = stats s"
      by simp_all
    have ok: "\<forall>c\<in>set cs. child_ok (depth cn) c" using f fetch_ok by blast
    from wf_merge [OF _ ok m] wf s1
    have wf2: "wf_lists (nodes s2) (queue s2) (visited s2)" and sub: "set (nodes s) \<subseteq> set (nodes s2)"
      by simp_all
    from merge_children_shape [OF m] obtain new where
      new: "nodes s2 = nodes ?s1 @ new" "set new \<subseteq> set cs" "stats s2 = stats ?s1" by blast
    have "\<forall>c\<in>set new. \<not> scanned c" using ok new(2) by (auto simp: child_ok_def)
    then have "filter scanned new = []" by (simp add: filter_empty_conv)
    then have "filter scanned (nodes s2) = filter scanned (nodes s)" using new(1) s1 by simp
    then show ?thesis using wf2 sub cn new(3) s1 by auto
  qed
  show ?thesis
  proof (cases rule: resume_cases [of l w s cn cfg])
    case (failed e)
    have "filter scanned (replaceFirst (cn\<lparr>status := JStr (failed_status l e)\<rparr>) (nodes s))
          = filter scanned (nodes s)"
      using wf cn by (intro stats_replace_unscanned [where cn = cn]) simp_all
    then show ?thesis using a failed(2) by (simp add: stats_agree_def updateNodeState_fields)
  next
    case (thrown cs k s2 e)
    from merged_state [OF thrown(1,2)] have ms: "wf_lists (nodes s2) (queue s2) (visited s2)"
      "cn \<in> set (nodes s2)" "filter scanned (nodes s2) = filter scanned (nodes s)" "stats s2 = stats s"
      by simp_all
    have "filter scanned (replaceFirst (cn\<lparr>status := JStr (failed_status l e)\<rparr>) (nodes s2))
          = filter scanned (nodes s2)"
      using ms cn(2) by (intro stats_replace_unscanned [where cn = cn]) simp_all
    then show ?thesis using a thrown(3) ms by (simp add: stats_agree_def updateNodeState_fields)
  next
    case (merged cs k s2)
    let ?done = "cn\<lparr>status := JStr ''200'', scanned := True\<rparr>"
    from merged_state [OF merged(1,2)] have ms: "wf_lists (nodes s2) (queue s2) (visited s2)"
      "cn \<in> set (nodes s2)" "filter scanned (nodes s2) = filter scanned (nodes s)" "stats s2 = stats s"
      by simp_all
    have rep: "length (filter scanned (replaceFirst ?done (nodes s2))) = Suc (length (filter scanned (nodes s2)))"
      "set (map depth (filter scanned (replaceFirst ?done (nodes s2)))) =
         insert (depth ?done) (set (map depth (filter scanned (nodes s2))))"
      using stats_replace_scanned [OF ms(1,2) cn(2), of ?done] by simp_all
    show ?thesis
      unfolding stats_agree_def
    proof (intro allI impI)
      fix st'
      assume "stats (processQueue_resume cfg l w cn s) = Some st'"
      then obtain prev where prev: "stats s = Some prev"
        and sp: "scannedPages st' = scannedPages prev + 1"
        and dr: "depthReached st' = max (depthReached prev) (depth cn)"
        using merged(3) ms(4)
        by (auto simp: update_stats_def updateNodeState_fields split: bind_splits)
      have p: "scannedPages prev = int (length (filter scanned (nodes s)))"
        "depthReached prev = Max (insert 0 (set (map depth (filter scanned (nodes s)))))"
        using a prev by (simp_all add: stats_agree_def)
      have n: "nodes (processQueue_resume cfg l w cn s) = replaceFirst ?done (nodes s2)"
        using merged(3) by (simp add: updateNodeState_fields)
      show "scannedPages st' = int (length (filter scanned (nodes (processQueue_resume cfg l w cn s)))) \<and>
            depthReached st' =
              Max (insert 0 (set (map depth (filter scanned (nodes (processQueue_resume cfg l w cn s))))))"
        using sp dr p n rep ms(3) Max_scanned_insert [of "depth cn" "map depth (filter scanned (nodes s))"]
        by simp
    qed
  qed
qed

lemma stats_stop: "stats_agree s \<Longrightarrow> stats_agree (stopCrawl s)"
  by (simp add: stopCrawl_def stats_agree_def)

lemma stats_fire: "consistent s \<Longrightarrow> stats_agree s \<Longrightarrow> stats_agree (fire cfg l s ev)"
  by (cases ev) (auto simp: fire_def stats_processQueue stats_resume stats_stop
                      split: task.splits)

lemma stats_foldl:
  "consistent s \<Longrightarrow> stats_agree s \<Longrightarrow> stats_agree (foldl (fire cfg l) s evs)"
  by (induction evs arbitrary: s) (simp_all add: stats_fire consistent_fire)

lemma stats_start: "stats_agree (startRecursiveCrawl cfg now (idle keys k0))"
  by (simp add: stats_agree_def startRecursiveCrawl_def idle_def rootNode_def)

lemma stats_crawl: "stats_agree (crawl cfg l now (idle keys k0) evs)"
  unfolding crawl_def
  by (intro stats_foldl stats_start consistent_start consistent_idle)



section \<open>The page budget\<close>

lemma length_replaceFirst: "length (replaceFirst u xs) = length xs"
  by (induction xs) auto

lemma map_links_urls:
  "\<exists>cs. map_links w cu d i (map (\<lambda>u. JObj [(''url'', JStr u)]) us) = Inr cs \<and>
        map url cs = us \<and> (\<forall>c\<in>set cs. status c = JStr ''200'')"
proof (induction us arbitrary: i)
  case Nil
  then show ?case by simp
next
  case (Cons u us)
  from Cons.IH [of "Suc i"] obtain cs where
    cs: "map_links w cu d (Suc i) (map (\<lambda>u. JObj [(''url'', JStr u)]) us) = Inr cs"
      "map url cs = us" "\<forall>c\<in>set cs. status c = JStr ''200''" by blast
  obtain c where c: "mk_link w cu d i (JObj [(''url'', JStr u)]) = Inr c" "url c = u"
      "status c = JStr ''200''"
    by (simp add: mk_link_def)
  show ?case using cs c by simp
qed

lemma merge_all_fresh:
  "distinct (map url cs) \<Longrightarrow> set (map url cs) \<inter> visited s = {} \<Longrightarrow>
   \<forall>c\<in>set cs. \<exists>t. status c = JStr t \<Longrightarrow>
   nodes (fst (merge_children cs s)) = nodes s @ cs"
proof (induction cs arbitrary: s)
  case Nil
  then show ?case by simp
next
  case (Cons c cs)
  then obtain t where t: "status c = JStr t" by auto
  have fresh: "url c \<notin> visited s" using Cons.prems(2) by auto
  let ?s1 = "s\<lparr>visited := insert (url c) (visited s), nodes := nodes s @ [c]\<rparr>"
  let ?s2 = "if ltype c = JStr ''internal'' \<and> contentType c = text_html
             then ?s1\<lparr>queue := queue ?s1 @ [c]\<rparr> else ?s1"
  have step: "merge_children (c # cs) s = merge_children cs ?s2"
    using fresh t by (simp add: Let_def)
  have "nodes (fst (merge_children cs ?s2)) = nodes ?s2 @ cs"
    using Cons.prems by (intro Cons.IH) auto
  then show ?case using step by simp
qed

lemma first_attempt_returns:
  assumes "k < length keys" "try_body parse w u d (oracle_reply w k 0) = Inr cs"
  shows "keys_loop parse w keys u d k le = (Inr (cs, k), [Call k])"
proof -
  have "attempts parse w u d k 0 le = (Returned cs k, [Call k])"
    using assms(2) by (subst attempts.simps) simp
  then show ?thesis using assms(1) by (subst keys_loop.simps) simp
qed

lemma crawl_started:
  assumes "keys \<noteq> []" "CrawlConfig.url cfg \<noteq> []" "1 < maxPages cfg" "0 < maxDepth cfg"
  shows "crawl cfg l now (idle keys k0) [] =
    (startRecursiveCrawl cfg now (idle keys k0))
      \<lparr>queue := [],
       stats := Some \<lparr> totalLinks = 1, scannedPages = 0, queuedPages = 0, errors = 0,
                       assetsFound = 0, totalSizeKB = 0, startTime = now,
                       currentUrl = CrawlConfig.url cfg, depthReached = 0 \<rparr>,
       nodes := [(rootNode cfg)\<lparr>status := JStr ''scanning''\<rparr>],
       task := Awaiting ((rootNode cfg)\<lparr>status := JStr ''scanning''\<rparr>)\<rparr>"
  using assms
  by (simp add: crawl_def fire_def startRecursiveCrawl_def idle_def processQueue_def
      updateNodeState_def rootNode_def Let_def)

text \<open>
  Claim C1 fails on the code. The page budget is tested only when \<^verbatim>\<open>processQueue\<close> is
  invoked (line 179); the loop that merges the children (lines 221 to 231) never looks at
  it. Whenever the expansion of the seed answers with links to \<open>n\<close> distinct new URLs, the
  node list holds \<open>1 + n\<close> nodes afterwards, whatever \<^verbatim>\<open>maxPages\<close> is.
\<close>

theorem page_budget_exceeded:
  "k0 < length keys \<and> CrawlConfig.url cfg \<noteq> [] \<and>
   guessContentType (CrawlConfig.url cfg) = text_html \<and> 1 < maxPages cfg \<and> 0 < maxDepth cfg \<and>
   oracle_reply w k0 0 = Reply (Some t) \<and> t \<noteq> [] \<and>
   JSON_parse l (cleanText t) = Some (JArr (map (\<lambda>u. JObj [(''url'', JStr u)]) us)) \<and>
   distinct us \<and> CrawlConfig.url cfg \<notin> set us \<longrightarrow>
   int (length (nodes (crawl cfg l now (idle keys k0) [Fetched w]))) = 1 + int (length us)"
proof
  assume h: "k0 < length keys \<and> CrawlConfig.url cfg \<noteq> [] \<and>
   guessContentType (CrawlConfig.url cfg) = text_html \<and> 1 < maxPages cfg \<and> 0 < maxDepth cfg \<and>
   oracle_reply w k0 0 = Reply (Some t) \<and> t \<noteq> [] \<and>
   JSON_parse l (cleanText t) = Some (JArr (map (\<lambda>u. JObj [(''url'', JStr u)]) us)) \<and>
   distinct us \<and> CrawlConfig.url cfg \<notin> set us"
  then have keys: "keys \<noteq> []" by auto
  let ?root = "(rootNode cfg)\<lparr>status := JStr ''scanning''\<rparr>"
  let ?s = "crawl cfg l now (idle keys k0) []"
  have st: "?s = (startRecursiveCrawl cfg now (idle keys k0))
      \<lparr>queue := [],
       stats := Some \<lparr> totalLinks = 1, scannedPages = 0, queuedPages = 0, errors = 0,
                       assetsFound = 0, totalSizeKB = 0, startTime = now,
                       currentUrl = CrawlConfig.url cfg, depthReached = 0 \<rparr>,
       nodes := [?root], task := Awaiting ?root\<rparr>"
    using h keys by (intro crawl_started) simp_all
  have s: "nodes ?s = [?root]" "visited ?s = {CrawlConfig.url cfg}" "task ?s = Awaiting ?root"
    "apiKeys ?s = keys" "currentKeyIndex ?s = k0"
    using h keys unfolding st by (simp_all add: startRecursiveCrawl_def idle_def)
  from map_links_urls [of w "CrawlConfig.url cfg" 0 0 us] obtain cs where
    cs: "map_links w (CrawlConfig.url cfg) 0 0 (map (\<lambda>u. JObj [(''url'', JStr u)]) us) = Inr cs"
      "map url cs = us" "\<forall>c\<in>set cs. status c = JStr ''200''" by blast
  have tb: "try_body (JSON_parse l) w (CrawlConfig.url cfg) 0 (oracle_reply w k0 0) = Inr cs"
    using h cs(1) by (simp add: try_body_def)
  have f: "fst (fetchPageLinks (JSON_parse l) w (apiKeys ?s) (currentKeyIndex ?s)
               (url ?root) (CrawlConfig.url cfg) (depth ?root)) = Inr (cs, k0)"
    using h keys s first_attempt_returns [OF _ tb, of keys None]
    by (simp add: fetch_html rootNode_def)
  have run: "crawl cfg l now (idle keys k0) [Fetched w] = processQueue_resume cfg l w ?root ?s"
    using s(3) by (simp add: crawl_def fire_def)
  let ?s1 = "if k0 \<noteq> currentKeyIndex ?s then ?s\<lparr>currentKeyIndex := k0\<rparr> else ?s"
  have m: "nodes (fst (merge_children cs ?s1)) = nodes ?s1 @ cs"
    using h cs s by (intro merge_all_fresh) auto
  have len: "length (nodes (processQueue_resume cfg l w ?root ?s)) = length (nodes ?s) + length cs"
  proof (cases rule: resume_cases [of l w ?s ?root cfg])
    case (failed e)
    then show ?thesis using f by simp
  next
    case (thrown cs' k s2 e)
    then show ?thesis using f m s(5)
      by (simp add: updateNodeState_fields length_replaceFirst)
  next
    case (merged cs' k s2)
    then show ?thesis using f m s(5)
      by (simp add: updateNodeState_fields length_replaceFirst)
  qed
  have "length cs = length us" using cs(2) by (metis length_map)
  then show "int (length (nodes (crawl cfg l now (idle keys k0) [Fetched w]))) = 1 + int (length us)"
    using run len s(1) by simp
qed

lemma dec_nonempty: "dec n \<noteq> []"
  by (subst dec.simps) simp

declare dec.simps [simp del]

lemma distinct_dec: "distinct (map dec [0..<50])"
  by code_simp

lemma fifty_distinct: "distinct fifty_urls"
  unfolding fifty_urls_def using distinct_dec
  by (simp add: distinct_map inj_on_def)

lemma fifty_fresh: "''https://example.test/'' \<notin> set fifty_urls"
proof -
  have "''https://example.test/'' \<noteq> ''https://example.test/'' @ dec i" for i
    using dec_nonempty [of i] by (simp del: append.simps)
  then show ?thesis unfolding fifty_urls_def by (auto simp del: append.simps)
qed

lemma fifty_reply_nonempty: "fifty_reply \<noteq> []"
  by (simp add: fifty_reply_def)

text \<open>With a budget of 50 pages and a reply of 50 links the node list holds 51 nodes.\<close>

theorem page_budget_exceeded_witness:
  "maxPages budget_config = 50 \<and>
   length (nodes (crawl budget_config fifty_lib 0 (idle [key_one] 0)
                    [Fetched (always_replying fifty_reply)])) = 51"
proof -
  have "length fifty_urls = 50" by (simp add: fifty_urls_def)
  then show ?thesis
    using page_budget_exceeded [of 0 "[key_one]" budget_config "always_replying fifty_reply"
        fifty_reply fifty_lib fifty_urls 0]
      fifty_distinct fifty_fresh fifty_reply_nonempty html_root
    by (simp add: budget_config_def example_config_def always_replying_def fifty_lib_def)
qed

section \<open>The example crawl, and the claims about the engine\<close>

lemma example_run_facts:
  "(let s = example_run in
      (map url (nodes s), map url (queue s), map scanned (nodes s), map depth (nodes s),
       map size_or_0 (nodes s), stats s, task s)) =
   ([''https://example.test/'', ''https://example.test/a'', ''https://example.test/style.css''],
    [''https://example.test/a''], [True, False, False], [0, 1, 1], [0, 5, 5],
    Some \<lparr>totalLinks = 3, scannedPages = 1, queuedPages = 1, errors = 0,
          assetsFound = 0, totalSizeKB = 15, startTime = 0,
          currentUrl = ''https://example.test/'', depthReached = 0\<rparr>,
    Scheduled)"
  by code_simp

lemma example_run_values:
  "map url (nodes example_run) =
     [''https://example.test/'', ''https://example.test/a'', ''https://example.test/style.css'']"
  "map url (queue example_run) = [''https://example.test/a'']"
  "map scanned (nodes example_run) = [True, False, False]"
  "map depth (nodes example_run) = [0, 1, 1]"
  "map size_or_0 (nodes example_run) = [0, 5, 5]"
  "stats example_run = Some \<lparr>totalLinks = 3, scannedPages = 1, queuedPages = 1, errors = 0,
          assetsFound = 0, totalSizeKB = 15, startTime = 0,
          currentUrl = ''https://example.test/'', depthReached = 0\<rparr>"
  using example_run_facts by (simp_all add: Let_def)

lemma stopped_run_facts:
  "(let s = stopped_run in
      (crawl_status s, map fst (reports s), map (\<lambda>r. map url (snd r)) (reports s), task s)) =
   (COMPLETED, [key_one],
    [[''https://example.test/'', ''https://example.test/a'', ''https://example.test/style.css'']],
    NoTask)"
  by code_simp

lemma aborted_facts:
  "(let s = crawl example_config example_lib 0 (idle [key_one] 0) [Stop] in
      (crawl_status s, isRunning s)) = (IDLE, False)"
  by code_simp

text \<open>
  Claim C2 fails on the code. The abort button is pressed while the expansion of the seed
  is in flight: \<^verbatim>\<open>stopCrawl\<close> clears the run flag and sets the status to \<^verbatim>\<open>IDLE\<close>. The
  expansion finishes and sets up the next \<^verbatim>\<open>processQueue\<close> with \<^verbatim>\<open>setTimeout\<close>; that
  invocation finds the run flag cleared and calls \<^verbatim>\<open>finishCrawl\<close>, which sets the status to
  \<^verbatim>\<open>COMPLETED\<close> and requests the report with the active key.
\<close>

theorem stop_ends_completed:
  "crawl_status (crawl example_config example_lib 0 (idle [key_one] 0) [Stop]) = IDLE \<and>
   crawl_status stopped_run = COMPLETED \<and>
   map fst (reports stopped_run) = [key_one] \<and>
   task stopped_run = NoTask"
  using stopped_run_facts aborted_facts by (simp add: Let_def)

text \<open>The stopped run does not end aborted, and its report has been requested.\<close>

theorem stop_ends_completed_witness:
  "crawl_status stopped_run \<noteq> IDLE \<and> reports stopped_run \<noteq> []"
  using stop_ends_completed by auto

text \<open>The same in any state: the invocation that follows \<^verbatim>\<open>stopCrawl\<close> completes the crawl.\<close>

lemma stop_then_invoke_completes:
  "crawl_status (processQueue cfg (stopCrawl s)) = COMPLETED \<and>
   reports (processQueue cfg (stopCrawl s)) =
     (if currentKeyIndex s < length (apiKeys s) \<and> apiKeys s ! currentKeyIndex s \<noteq> []
      then reports s @ [(apiKeys s ! currentKeyIndex s, nodes s)] else reports s)"
  by (simp add: processQueue_def stopCrawl_def finishCrawl_def Let_def)

text \<open>
  Claim C6. In every state of every run no two nodes have the same URL, and the visited
  set holds exactly the URLs of the nodes. A child whose URL has been visited is skipped
  by the merge loop, which then goes on as if the child were not in the list; and
  whatever the merge loop is given, it leaves the nodes that exist as they are and appends
  only nodes whose URLs were not visited before.
\<close>

theorem no_duplicate_urls:
  "s = crawl cfg l now (idle keys k0) evs \<Longrightarrow>
   distinct (map url (nodes s)) \<and> visited s = set (map url (nodes s)) \<and>
   (\<forall>c cs. url c \<in> visited s \<longrightarrow> merge_children (c # cs) s = merge_children cs s) \<and>
   (\<forall>cs. \<exists>new. nodes (fst (merge_children cs s)) = nodes s @ new \<and>
               (\<forall>n\<in>set new. url n \<notin> visited s))"
proof (intro conjI allI impI)
  assume s: "s = crawl cfg l now (idle keys k0) evs"
  have wf: "wf_lists (nodes s) (queue s) (visited s)"
    using consistent_crawl [of cfg l now keys k0 evs] s by (simp add: consistent_iff)
  show "distinct (map url (nodes s))" using wf by (simp add: wf_lists_def)
  show "visited s = set (map url (nodes s))" using wf by (simp add: wf_lists_def)
  show "merge_children (c # cs) s = merge_children cs s" if "url c \<in> visited s" for c cs
    using that by simp
  show "\<exists>new. nodes (fst (merge_children cs s)) = nodes s @ new \<and>
               (\<forall>n\<in>set new. url n \<notin> visited s)" for cs
  proof -
    obtain s' e where m: "merge_children cs s = (s', e)" by (cases "merge_children cs s")
    from merge_children_shape [OF m] obtain new where
      "nodes s' = nodes s @ new" "set (map url new) \<inter> visited s = {}" by blast
    then show ?thesis using m by (intro exI [of _ new]) auto
  qed
qed

text \<open>In the example the oracle returns the seed again; the seed stays one node.\<close>

theorem no_duplicate_urls_witness:
  "distinct (map url (nodes example_run)) \<and>
   map url (nodes example_run) =
     [''https://example.test/'', ''https://example.test/a'', ''https://example.test/style.css''] \<and>
   visited example_run = set (map url (nodes example_run))"
proof -
  have "example_run = crawl example_config example_lib 0 (idle [key_one] 0)
                        [Fetched (always_replying example_reply)]"
    by (simp add: example_run_def)
  from no_duplicate_urls [OF this]
  have "distinct (map url (nodes example_run))"
    "visited example_run = set (map url (nodes example_run))" by blast+
  then show ?thesis using example_run_values(1) by blast
qed

section \<open>Several runs of one component\<close>

text \<open>A run with one chain is a run of the component: \<open>crawl\<close> is \<open>session\<close> with one
  \<^verbatim>\<open>Initialize Scan\<close>.\<close>

lemma merge_children_task:
  "merge_children cs (s\<lparr>task := t\<rparr>) =
     ((fst (merge_children cs s))\<lparr>task := t\<rparr>, snd (merge_children cs s))"
proof (induction cs arbitrary: s)
  case Nil
  show ?case by simp
next
  case (Cons c cs)
  show ?case
  proof (cases "url c \<in> visited s")
    case True
    then show ?thesis using Cons.IH [of s] by simp
  next
    case False
    define s2 where "s2 =
      (if ltype c = JStr ''internal'' \<and> contentType c = text_html
       then s\<lparr>visited := insert (url c) (visited s), nodes := nodes s @ [c],
              queue := queue s @ [c]\<rparr>
       else s\<lparr>visited := insert (url c) (visited s), nodes := nodes s @ [c]\<rparr>)"
    define s2' where "s2' =
      (if ltype c = JStr ''internal'' \<and> contentType c = text_html
       then s\<lparr>task := t, visited := insert (url c) (visited s), nodes := nodes s @ [c],
              queue := queue s @ [c]\<rparr>
       else s\<lparr>task := t, visited := insert (url c) (visited s), nodes := nodes s @ [c]\<rparr>)"
    have s2': "s2' = s2\<lparr>task := t\<rparr>" by (simp add: s2_def s2'_def)
    show ?thesis
    proof (cases "\<exists>st. status c = JStr st")
      case True
      then obtain st where st: "status c = JStr st" by blast
      have "merge_children (c # cs) s = merge_children cs s2"
        and "merge_children (c # cs) (s\<lparr>task := t\<rparr>) = merge_children cs s2'"
        using False st by (simp_all add: s2_def s2'_def Let_def)
      then show ?thesis using Cons.IH [of s2] s2' by simp
    next
      case nostr: False
      have "merge_children (c # cs) s = (s2, Some TypeError_startsWith)"
        and "merge_children (c # cs) (s\<lparr>task := t\<rparr>) = (s2', Some TypeError_startsWith)"
        using False nostr by (cases "status c"; simp add: s2_def s2'_def Let_def)+
      then show ?thesis using s2' by simp
    qed
  qed
qed

lemma update_stats_task: "update_stats (s\<lparr>task := t\<rparr>) = update_stats s"
  by (simp add: update_stats_def fun_eq_iff)

lemma updateNodeState_task: "updateNodeState u (s\<lparr>task := t\<rparr>) = (updateNodeState u s)\<lparr>task := t\<rparr>"
  by (simp add: updateNodeState_def)

lemma processQueue_task: "processQueue cfg (s\<lparr>task := t\<rparr>) = processQueue cfg s"
  by (auto simp: processQueue_def finishCrawl_def updateNodeState_def Let_def split: list.splits)

lemma processQueue_resume_task:
  "processQueue_resume cfg l w cn (s\<lparr>task := t\<rparr>) = processQueue_resume cfg l w cn s"
proof -
  let ?f = "fst (fetchPageLinks (JSON_parse l) w (apiKeys s) (currentKeyIndex s)
                       (url cn) (CrawlConfig.url cfg) (depth cn))"
  show ?thesis
  proof (cases ?f)
    case (Inl e)
    then show ?thesis by (simp add: processQueue_resume_def updateNodeState_task)
  next
    case (Inr r)
    obtain cs k where r: "r = (cs, k)" by (cases r)
    let ?s1 = "if k \<noteq> currentKeyIndex s then s\<lparr>currentKeyIndex := k\<rparr> else s"
    have s1: "(if k \<noteq> currentKeyIndex s then s\<lparr>task := t, currentKeyIndex := k\<rparr> else s\<lparr>task := t\<rparr>)
              = ?s1\<lparr>task := t\<rparr>" by simp
    obtain s2 eo where m: "merge_children cs ?s1 = (s2, eo)" by (cases "merge_children cs ?s1")
    then have m': "merge_children cs (?s1\<lparr>task := t\<rparr>) = (s2\<lparr>task := t\<rparr>, eo)"
      by (simp add: merge_children_task)
    show ?thesis
      using Inr r m m' unfolding processQueue_resume_def
      by (cases eo)
         (simp_all add: s1 Let_def updateNodeState_task update_stats_task del: if_split)
  qed
qed

lemma session_step_first_chain:
  assumes "refs S = c\<lparr>task := NoTask\<rparr>" "chains S = [(cfg, task c)]"
  shows "session_step l S (first_chain ev) =
         \<lparr>refs = (fire cfg l c ev)\<lparr>task := NoTask\<rparr>, chains = [(cfg, task (fire cfg l c ev))]\<rparr>"
proof (cases ev)
  case Invoke
  show ?thesis
    using assms Invoke
    by (cases "task c")
       (simp_all add: session_step_def first_chain_def fire_def processQueue_task Let_def)
next
  case (Fetched w)
  show ?thesis
    using assms Fetched
    by (cases "task c")
       (simp_all add: session_step_def first_chain_def fire_def processQueue_resume_task Let_def)
next
  case Stop
  show ?thesis
    using assms Stop
    by (simp add: session_step_def first_chain_def fire_def stopCrawl_def)
qed

lemma crawl_in_session:
  assumes "CrawlConfig.url cfg \<noteq> []" "keys \<noteq> []"
  shows "session l keys k0 (Initialize cfg now # map first_chain evs) =
         \<lparr>refs = (crawl cfg l now (idle keys k0) evs)\<lparr>task := NoTask\<rparr>,
          chains = [(cfg, task (crawl cfg l now (idle keys k0) evs))]\<rparr>"
proof (induction evs rule: rev_induct)
  case Nil
  have "startRecursiveCrawl cfg now (idle keys k0) \<noteq> idle keys k0 \<and>
        task (startRecursiveCrawl cfg now (idle keys k0)) = Scheduled"
    using assms by (auto simp: startRecursiveCrawl_def idle_def dest: arg_cong [where f = crawl_status])
  then show ?case
    using assms
    by (simp add: session_def session_step_def crawl_def fire_def Let_def idle_def)
next
  case (snoc ev evs)
  let ?c = "crawl cfg l now (idle keys k0) evs"
  let ?S = "session l keys k0 (Initialize cfg now # map first_chain evs)"
  have "session l keys k0 (Initialize cfg now # map first_chain (evs @ [ev])) =
        session_step l ?S (first_chain ev)"
    by (simp add: session_def)
  also have "\<dots> = \<lparr>refs = (fire cfg l ?c ev)\<lparr>task := NoTask\<rparr>,
                     chains = [(cfg, task (fire cfg l ?c ev))]\<rparr>"
    using snoc.IH by (intro session_step_first_chain) simp_all
  finally show ?case by (simp add: crawl_def)
qed


text \<open>What the refs keep under every sequence of events of the component.\<close>

lemma replaceFirst_keyed:
  "node_id u = url u \<Longrightarrow> \<forall>n\<in>set xs. node_id n = url n \<Longrightarrow>
   map url (replaceFirst u xs) = map url xs \<and> (\<forall>n\<in>set (replaceFirst u xs). node_id n = url n)"
  by (induction xs) auto

lemma shared_ok_update:
  assumes "shared_ok s" "node_id u = url u"
  shows "shared_ok (updateNodeState u s)"
  using assms replaceFirst_keyed [of u "nodes s"]
  by (auto simp: shared_ok_def updateNodeState_def)

lemma shared_ok_task: "shared_ok (s\<lparr>task := t\<rparr>) = shared_ok s"
  by (simp add: shared_ok_def)

lemma shared_ok_processQueue:
  assumes "shared_ok s"
  shows "shared_ok (processQueue cfg s) \<and>
         (\<forall>cn. task (processQueue cfg s) = Awaiting cn \<longrightarrow> node_id cn = url cn)"
proof (cases "\<not> isRunning s \<or> queue s = [] \<or> int (length (nodes s)) \<ge> maxPages cfg")
  case True
  then have "processQueue cfg s = (finishCrawl s)\<lparr>task := NoTask\<rparr>"
    by (simp add: processQueue_def)
  then show ?thesis using assms by (simp add: shared_ok_def finishCrawl_fields)
next
  case False
  then obtain cur rest where q: "queue s = cur # rest" by (cases "queue s") auto
  have cur: "node_id cur = url cur" using assms q by (simp add: shared_ok_def)
  let ?s1 = "s\<lparr>queue := rest,
                stats := map_option (\<lambda>prev. prev\<lparr>currentUrl := url cur,
                                                   queuedPages := int (length rest)\<rparr>) (stats s)\<rparr>"
  have s1: "shared_ok ?s1" using assms q by (simp add: shared_ok_def)
  show ?thesis
  proof (cases "depth cur \<ge> maxDepth cfg")
    case True
    then have "processQueue cfg s = ?s1\<lparr>task := Scheduled\<rparr>"
      using False q by (simp add: processQueue_def)
    then show ?thesis using s1 by (simp add: shared_ok_task)
  next
    case deep: False
    let ?u = "cur\<lparr>status := JStr ''scanning''\<rparr>"
    have "processQueue cfg s = (updateNodeState ?u ?s1)\<lparr>task := Awaiting ?u\<rparr>"
      using False q deep by (simp add: processQueue_def Let_def)
    moreover have "shared_ok (updateNodeState ?u ?s1)"
      using s1 cur by (intro shared_ok_update) simp_all
    ultimately show ?thesis using cur by (simp add: shared_ok_task)
  qed
qed

lemma shared_ok_merge:
  assumes ok: "shared_ok s" and cs: "\<forall>c\<in>set cs. child_ok d c" and m: "merge_children cs s = (s', e)"
  shows "shared_ok s'"
proof -
  from merge_children_shape [OF m] obtain new where new:
    "nodes s' = nodes s @ new" "queue s' = queue s @ filter enqueued new"
    "visited s' = visited s \<union> set (map url new)" "set new \<subseteq> set cs"
    "distinct (map url new)" "set (map url new) \<inter> visited s = {}"
    by blast
  have newok: "\<forall>c\<in>set new. node_id c = url c \<and> contentType c = guessContentType (url c)"
    using cs new(4) by (auto simp: child_ok_def)
  have "distinct (map url (nodes s @ new))"
    using ok new(5,6) by (auto simp: shared_ok_def)
  then show ?thesis
    using ok new newok unfolding shared_ok_def by (auto simp: enqueued_def)
qed

lemma shared_ok_resume:
  assumes ok: "shared_ok s" and cn: "node_id cn = url cn"
  shows "shared_ok (processQueue_resume cfg l w cn s) \<and>
         task (processQueue_resume cfg l w cn s) = Scheduled"
proof (cases rule: resume_cases [of l w s cn cfg])
  case (failed e)
  then show ?thesis using ok cn by (simp add: shared_ok_task shared_ok_update)
next
  case (thrown cs k s2 e)
  have "shared_ok (if k \<noteq> currentKeyIndex s then s\<lparr>currentKeyIndex := k\<rparr> else s)"
    using ok by (simp add: shared_ok_def)
  from shared_ok_merge [OF this _ thrown(2)] fetch_ok [OF thrown(1)]
  have "shared_ok s2" by blast
  then show ?thesis using thrown(3) cn by (simp add: shared_ok_task shared_ok_update)
next
  case (merged cs k s2)
  have "shared_ok (if k \<noteq> currentKeyIndex s then s\<lparr>currentKeyIndex := k\<rparr> else s)"
    using ok by (simp add: shared_ok_def)
  from shared_ok_merge [OF this _ merged(2)] fetch_ok [OF merged(1)]
  have "shared_ok s2" by blast
  then have "shared_ok (updateNodeState (cn\<lparr>status := JStr ''200'', scanned := True\<rparr>) s2)"
    using cn by (intro shared_ok_update) simp_all
  then show ?thesis using merged(3) by (simp add: shared_ok_def)
qed

lemma shared_ok_start:
  "CrawlConfig.url cfg \<noteq> [] \<Longrightarrow> apiKeys s \<noteq> [] \<Longrightarrow> crawl_status s \<noteq> RUNNING \<Longrightarrow>
   shared_ok (startRecursiveCrawl cfg now s)"
  by (auto simp: startRecursiveCrawl_def shared_ok_def rootNode_def)

lemma shared_ok_stop: "shared_ok s \<Longrightarrow> shared_ok (stopCrawl s)"
  by (simp add: stopCrawl_def shared_ok_def)

lemma session_ok_update:
  assumes "session_ok S" "shared_ok s" "\<forall>cn. t = Awaiting cn \<longrightarrow> node_id cn = url cn"
  shows "session_ok \<lparr>refs = s\<lparr>task := NoTask\<rparr>, chains = (chains S)[i := (cfg, t)]\<rparr>"
  using assms set_update_subset_insert [of "chains S" i "(cfg, t)"]
  by (auto simp: session_ok_def shared_ok_task)

lemma session_ok_step: "session_ok S \<Longrightarrow> session_ok (session_step l S ev)"
proof (cases ev)
  case (Initialize cfg now)
  assume ok: "session_ok S"
  show ?thesis
  proof (cases "CrawlConfig.url cfg = [] \<or> apiKeys (refs S) = [] \<or> crawl_status (refs S) = RUNNING")
    case True
    then show ?thesis using ok Initialize by (simp add: session_step_def)
  next
    case False
    then have "shared_ok (startRecursiveCrawl cfg now (refs S))" by (intro shared_ok_start) simp_all
    from shared_ok_processQueue [OF this, of cfg] show ?thesis
      using ok False Initialize by (auto simp: session_step_def session_ok_def Let_def shared_ok_task)
  qed
next
  case Abort
  assume "session_ok S"
  then show ?thesis using Abort by (simp add: session_step_def session_ok_def shared_ok_stop)
next
  case (Timer i)
  assume ok: "session_ok S"
  show ?thesis
  proof (cases "i < length (chains S) \<and> snd (chains S ! i) = Scheduled")
    case True
    then obtain cfg where c: "chains S ! i = (cfg, Scheduled)" by (cases "chains S ! i") auto
    from ok have "shared_ok (refs S)" by (simp add: session_ok_def)
    from shared_ok_processQueue [OF this, of cfg] show ?thesis
      using True c Timer session_ok_update [OF ok, of "processQueue cfg (refs S)"]
      by (simp add: session_step_def Let_def)
  next
    case False
    then have "session_step l S ev = S"
      using Timer by (auto simp: session_step_def split: prod.splits task.splits)
    then show ?thesis using ok by simp
  qed
next
  case (Resume i w)
  assume ok: "session_ok S"
  show ?thesis
  proof (cases "i < length (chains S) \<and> (\<exists>cn. snd (chains S ! i) = Awaiting cn)")
    case True
    then obtain cfg cn where c: "chains S ! i = (cfg, Awaiting cn)" by (cases "chains S ! i") auto
    then have "(cfg, Awaiting cn) \<in> set (chains S)" using True by (metis nth_mem)
    then have cn: "node_id cn = url cn" using ok by (auto simp: session_ok_def)
    from ok have "shared_ok (refs S)" by (simp add: session_ok_def)
    from shared_ok_resume [OF this cn, of cfg l w] show ?thesis
      using True c Resume session_ok_update [OF ok, of "processQueue_resume cfg l w cn (refs S)"]
      by (simp add: session_step_def Let_def)
  next
    case False
    then have "session_step l S ev = S"
      using Resume by (auto simp: session_step_def split: prod.splits task.splits)
    then show ?thesis using ok by simp
  qed
qed

lemma session_ok_foldl: "session_ok S \<Longrightarrow> session_ok (foldl (session_step l) S evs)"
  by (induction evs arbitrary: S) (simp_all add: session_ok_step)

lemma session_ok_session: "session_ok (session l keys k0 evs)"
  unfolding session_def by (intro session_ok_foldl) (simp add: session_ok_def shared_ok_def idle_def)

text \<open>
  With several chains on the same refs, too, no two nodes have the same URL and the
  visited set holds exactly the URLs of the nodes, and a node on the queue is a seed node
  or an \<^verbatim>\<open>internal\<close> node whose URL the classifier maps to HTML.
\<close>

lemma several_chains_no_duplicate_urls:
  "distinct (map url (nodes (refs (session l keys k0 evs)))) \<and>
   visited (refs (session l keys k0 evs)) = set (map url (nodes (refs (session l keys k0 evs))))"
  using session_ok_session [of l keys k0 evs] by (simp add: session_ok_def shared_ok_def)

lemma several_chains_resources_are_leaves:
  "n \<in> set (queue (refs (session l keys k0 evs))) \<Longrightarrow>
   (\<exists>cfg. n = rootNode cfg) \<or> (guessContentType (url n) = text_html \<and> ltype n = JStr ''internal'')"
  using session_ok_session [of l keys k0 evs] by (simp add: session_ok_def shared_ok_def)

text \<open>The example of a run that is started again while an expansion of the aborted run is
  in flight.\<close>

lemma restart_run_5:
  "in_flight (restart_run 5) =
     [Some (''https://example.test/a'', 1), Some (''https://example.test/'', 0)]"
  by code_simp


lemma restart_run_7:
  "(let S = restart_run 7 in
      (map url (queue (refs S)), map depth (queue (refs S)), map url (nodes (refs S)),
       crawl_status (refs S))) =
   ([''https://example.test/a/b'', ''https://example.test/a''], [2, 1],
    [''https://example.test/'', ''https://example.test/a/b'', ''https://example.test/a'',
     ''https://example.test/style.css''],
    RUNNING)"
  by code_simp

lemma restart_run_8: "in_flight (restart_run 8) = [Some (''https://example.test/a/b'', 2), None]"
  by code_simp

lemma restart_run_9:
  "in_flight (restart_run 9) =
     [Some (''https://example.test/a/b'', 2), Some (''https://example.test/a'', 1)]"
  by code_simp

text \<open>
  Claim C7 fails on the code when a run is aborted and started again while an expansion
  of the aborted run is in flight. \<^verbatim>\<open>stopCrawl\<close> sets the status to \<^verbatim>\<open>IDLE\<close>, so the guard of
  line 143 lets \<^verbatim>\<open>startRecursiveCrawl\<close> through; it resets the refs and starts a second chain
  of \<^verbatim>\<open>processQueue\<close> invocations, and nothing cancels the first. After the fifth event of
  the example both chains await an expansion: the first that of the page
  \<^verbatim>\<open>https://example.test/a\<close> (depth 1), the second that of the seed (depth 0). The first
  comes back and puts its child of depth 2 on the queue of the second run; then the
  expansion of the seed comes back and puts its child of depth 1 behind it. The queue of
  the running crawl holds the depths 2 and 1, in this order. The next two invocations of
  \<^verbatim>\<open>processQueue\<close> take the node of depth 2 and then the node of depth 1 from the queue and
  start their expansions: in the second run the seed (depth 0), a node of depth 2 and a
  node of depth 1 are expanded in this order, all three of them nodes of the node list.
\<close>

theorem restart_breaks_breadth_first:
  "in_flight (restart_run 5) =
     [Some (''https://example.test/a'', 1), Some (''https://example.test/'', 0)] \<and>
   map url (queue (refs (restart_run 7))) = [''https://example.test/a/b'', ''https://example.test/a''] \<and>
   map depth (queue (refs (restart_run 7))) = [2, 1] \<and>
   \<not> sorted (map depth (queue (refs (restart_run 7)))) \<and>
   crawl_status (refs (restart_run 7)) = RUNNING \<and>
   in_flight (restart_run 8) = [Some (''https://example.test/a/b'', 2), None] \<and>
   in_flight (restart_run 9) =
     [Some (''https://example.test/a/b'', 2), Some (''https://example.test/a'', 1)] \<and>
   set [''https://example.test/'', ''https://example.test/a/b'', ''https://example.test/a'']
     \<subseteq> set (map url (nodes (refs (restart_run 7))))"
proof -
  have q: "map url (queue (refs (restart_run 7))) = [''https://example.test/a/b'', ''https://example.test/a'']"
    "map depth (queue (refs (restart_run 7))) = [2, 1]"
    "map url (nodes (refs (restart_run 7))) =
       [''https://example.test/'', ''https://example.test/a/b'', ''https://example.test/a'',
        ''https://example.test/style.css'']"
    "crawl_status (refs (restart_run 7)) = RUNNING"
    using restart_run_7 by (simp_all add: Let_def)
  show ?thesis
    unfolding q restart_run_5 restart_run_8 restart_run_9 by simp
qed

text \<open>The second run does not keep the order of the claim: the expansion of a node of
  depth 2 starts before that of a node of depth 1.\<close>

theorem restart_breaks_breadth_first_witness:
  "\<exists>a b da db. in_flight (restart_run 8) = [Some (a, da), None] \<and>
      in_flight (restart_run 9) = [Some (a, da), Some (b, db)] \<and> db < da"
  using restart_breaks_breadth_first by simp

section \<open>Resources and statistics\<close>

text \<open>
  Claim C8. In every state of every run a node on the queue is the seed node or an
  \<^verbatim>\<open>internal\<close> node whose URL the classifier maps to HTML. The merge loop adds to the queue
  only children that are tagged \<^verbatim>\<open>internal\<close> and whose content type is HTML. With a pool
  that is not empty, \<open>fetchPageLinks\<close> on a URL that is not HTML returns no links under
  the starting index and makes no call.
\<close>

theorem resources_are_leaves:
  "(\<forall>n\<in>set (queue (crawl cfg l now (idle keys k0) evs)).
      n = rootNode cfg \<or> (guessContentType (url n) = text_html \<and> ltype n = JStr ''internal'')) \<and>
   (\<forall>cs s. \<forall>n\<in>set (queue (fst (merge_children cs s))).
      n \<in> set (queue s) \<or>
      (n \<in> set cs \<and> contentType n = text_html \<and> ltype n = JStr ''internal'')) \<and>
   (ks \<noteq> [] \<and> guessContentType u \<noteq> text_html \<longrightarrow>
      fetchPageLinks parse w ks i u r d = (Inr ([], i), []))"
proof (intro conjI allI impI ballI)
  fix n assume "n \<in> set (queue (crawl cfg l now (idle keys k0) evs))"
  then show "n = rootNode cfg \<or> (guessContentType (url n) = text_html \<and> ltype n = JStr ''internal'')"
    using html_crawl [of cfg l now keys k0 evs] by (auto simp: html_frontier_def)
next
  fix cs s n assume n: "n \<in> set (queue (fst (merge_children cs s)))"
  obtain s' e where m: "merge_children cs s = (s', e)" by (cases "merge_children cs s")
  from merge_children_shape [OF m] obtain new where
    "queue s' = queue s @ filter enqueued new" "set new \<subseteq> set cs" by blast
  then show "n \<in> set (queue s) \<or>
      (n \<in> set cs \<and> contentType n = text_html \<and> ltype n = JStr ''internal'')"
    using n m by (auto simp: enqueued_def)
next
  assume "ks \<noteq> [] \<and> guessContentType u \<noteq> text_html"
  then show "fetchPageLinks parse w ks i u r d = (Inr ([], i), [])"
    by (simp add: fetchPageLinks_def)
qed

lemma css_style: "guessContentType ''https://example.test/style.css'' = text_css"
  by (simp add: guessContentType_def has_ext_def lower_def)

text \<open>In the example the style sheet, tagged \<^verbatim>\<open>internal\<close> by the oracle, is recorded as a node
  and is not on the queue; expanding it calls nothing.\<close>

theorem resources_are_leaves_witness:
  "map url (nodes example_run) =
     [''https://example.test/'', ''https://example.test/a'', ''https://example.test/style.css''] \<and>
   map url (queue example_run) = [''https://example.test/a''] \<and>
   fetchPageLinks (JSON_parse example_lib) (always_replying example_reply) [key_one] 0
     ''https://example.test/style.css'' ''https://example.test/'' 1 = (Inr ([], 0), [])"
  using resources_are_leaves [of example_config example_lib 0 "[key_one]" 0
      "[Fetched (always_replying example_reply)]" "[key_one]" "''https://example.test/style.css''"
      "JSON_parse example_lib" "always_replying example_reply" 0 "''https://example.test/''" 1]
    example_run_values(1,2) css_style
  by simp







end
